theory Spec2Isabelle
  imports
    Complex_Main
    "HOL-Library.Char_ord"
    "HOL-Library.List_Lexorder"
    "HOL-Library.Multiset"
    "HOL-Library.Word"
begin

section \<open>Python strings\<close>

text \<open>
  A Python \<open>str\<close> is modelled as a \<^typ>\<open>string\<close>, one \<^typ>\<open>char\<close> per code point, so the
  model covers the code points below 256. \<open>str.isspace\<close>, the class \<open>\s\<close> of \<open>re\<close> and
  \<open>str.lower\<close> are written out for exactly these code points; \<open>str.lower\<close> maps none of
  them outside the range. Python compares and sorts strings by code point,
  which is the lexicographic order on \<^typ>\<open>char list\<close> used here.
\<close>

definition isspace :: "char \<Rightarrow> bool" where
  "isspace c = (of_char c \<in> {9, 10, 11, 12, 13, 28, 29, 30, 31, 32, 133, 160 :: nat})"

definition lower_char :: "char \<Rightarrow> char" where
  "lower_char c =
     (let n = (of_char c :: nat)
      in if (65 \<le> n \<and> n \<le> 90) \<or> (192 \<le> n \<and> n \<le> 222 \<and> n \<noteq> 215)
         then char_of (n + 32) else c)"

definition lower :: "string \<Rightarrow> string" where
  "lower s = map lower_char s"

text \<open>\<open>s.strip()\<close>: leading and trailing whitespace removed.\<close>

definition strip :: "string \<Rightarrow> string" where
  "strip s = rev (dropWhile isspace (rev (dropWhile isspace s)))"

text \<open>The character class \<open>[_\s]\<close> of both engines' pattern.\<close>

definition is_sep :: "char \<Rightarrow> bool" where
  "is_sep c = (c = CHR ''_'' \<or> isspace c)"

text \<open>\<open>re.sub('[_\s]+', ' ', v)\<close>: every maximal run of the class becomes one blank.\<close>

function sub_space :: "string \<Rightarrow> string" where
  "sub_space [] = []"
| "sub_space (c # cs) =
     (if is_sep c then CHR '' '' # sub_space (dropWhile is_sep cs) else c # sub_space cs)"
  by pat_completeness auto
termination
  by (relation "measure length") (auto simp: le_imp_less_Suc length_dropWhile_le)

text \<open>\<open>v.replace(' ', '_')\<close> and \<open>s.replace('_', ' ')\<close>.\<close>

definition replace_space :: "string \<Rightarrow> string" where
  "replace_space s = map (\<lambda>c. if c = CHR '' '' then CHR ''_'' else c) s"


text \<open>\<open>cell.split(',')\<close>: one more part than there are commas.\<close>

fun split_comma :: "string \<Rightarrow> string list" where
  "split_comma [] = [[]]"
| "split_comma (c # cs) =
     (if c = CHR '','' then [] # split_comma cs
      else (case split_comma cs of [] \<Rightarrow> [[c]] | p # ps \<Rightarrow> (c # p) # ps))"

text \<open>
  The em dash (U+2014) that the engines return in place of a recommendation lies outside
  the modelled code points; no string operation is applied to it, and it is kept as its
  UTF-8 bytes.
\<close>

definition em_dash :: string where
  "em_dash = [char_of (226 :: nat), char_of (128 :: nat), char_of (148 :: nat)]"

text \<open>
  \<open>round(x, 1)\<close>. Scores and probabilities are floats in the source; they are modelled by
  the rationals they stand for (a score is a quotient of two set sizes), and rounding to
  one decimal goes to the nearest tenth, a tie to the even one. The source rounds the
  float product \<open>best_score * 100\<close>, which can miss the exact product by a last bit, so
  where the exact product lies on a tie the source may return the neighbouring tenth (at
  the score 23/80 it returns 28.7, this function 28.8). Only bounds are proved of this
  function; no property below says which tenth a confidence is.
\<close>

definition py_round1 :: "rat \<Rightarrow> rat" where
  "py_round1 x =
     (let y = x * 10; f = \<lfloor>y\<rfloor>; d = y - of_int f
      in of_int (if d < 1 / 2 then f else if 1 / 2 < d then f + 1
                 else if even f then f else f + 1) / 10)"

section \<open>The symptom normaliser\<close>

type_synonym cache = "string \<rightharpoonup> string"

text \<open>The value \<open>v\<close> that \<open>_norm\<close> computes for a string it has not cached.\<close>

definition norm_value :: "string \<Rightarrow> string" where
  "norm_value s = replace_space (strip (sub_space (lower (strip s))))"

text \<open>
  \<open>_norm\<close> of both engines (the two bodies are the same): the state it reads and writes
  is the dictionary \<open>self._normalize_cache\<close>. The test \<open>s != s\<close> is false for every string.
\<close>

definition norm_sym :: "cache \<Rightarrow> string \<Rightarrow> string \<times> cache" where
  "norm_sym c s =
     (if s = [] then ([], c)
      else case c s of
             Some v \<Rightarrow> (v, c)
           | None \<Rightarrow> (let v = norm_value s in (v, c(s \<mapsto> v))))"

text \<open>A comprehension \<open>[self._norm(p) for p in ps]\<close>, the cache threaded left to right.\<close>

fun norm_list :: "cache \<Rightarrow> string list \<Rightarrow> string list \<times> cache" where
  "norm_list c [] = ([], c)"
| "norm_list c (p # ps) =
     (let (v, c1) = norm_sym c p; (vs, c2) = norm_list c1 ps in (v # vs, c2))"

text \<open>Every cached entry is the value \<open>_norm\<close> would compute.\<close>

definition cache_ok :: "cache \<Rightarrow> bool" where
  "cache_ok c = (\<forall>s v. c s = Some v \<longrightarrow> v = norm_value s)"

section \<open>The dataset\<close>

text \<open>
  A cell of the data frame is text or missing (pandas' NaN); \<open>str\<close> of a missing cell is
  the text \<open>nan\<close>. A row carries its disease label, the cells of the engine's symptom
  columns in column order, and its other columns by name.
\<close>

datatype cell = NaN | Str string

fun str_of :: "cell \<Rightarrow> string" where
  "str_of NaN = ''nan''"
| "str_of (Str s) = s"

record row =
  disease :: string
  symptom_cells :: "cell list"
  columns :: "string \<rightharpoonup> cell"

type_synonym dataset = "row list"

text \<open>\<open>str(row.get(name, '')).strip()\<close>.\<close>

definition get_text :: "row \<Rightarrow> string \<Rightarrow> string" where
  "get_text r name = (case columns r name of None \<Rightarrow> [] | Some c \<Rightarrow> strip (str_of c))"

datatype error = ValueError | IndexError

datatype status = Success | NoSymptoms | Unrecognized | LowMatch | Error

datatype debug =
    LowMatchDebug (dbg_score: rat) (dbg_threshold: rat)
  | SuccessDebug (dbg_score: rat) (dbg_matched_symptoms: "string list")
      (dbg_input_symptoms: "string list") (dbg_row_index: nat)

record result =
  predicted_disease :: string
  confidence :: rat
  medicine_recommendation :: string
  diet_recommendation :: string
  foods_to_avoid :: "string option"
  status :: status
  candidates :: "(string \<times> rat) list option"
  debug :: "debug option"


datatype reply = Predicted "error + result" | Symptoms "string list"

section \<open>The random-forest engine\<close>

text \<open>
  The fitted scikit-learn classifier is outside the repository: it is a value with the
  two members \<open>predict\<close> reads, \<open>classes_\<close> and \<open>predict_proba\<close>.
\<close>

record classifier =
  classes :: "string list"
  predict_proba :: "8 word list \<Rightarrow> rat list"

record rf_engine =
  df :: dataset
  normalize_cache :: cache
  symptom_vocab :: "string list"
  symptom_index :: "string \<rightharpoonup> nat"
  model :: "classifier option"
  row_symptom_sets :: "string set list"

text \<open>
  \<open>_split_cell\<close>: nothing for a missing or empty cell; otherwise the comma-separated parts,
  stripped, without the empty ones and without the text \<open>nan\<close> in any case, each normalised.
\<close>

fun rf_split_cell :: "cache \<Rightarrow> cell \<Rightarrow> string list \<times> cache" where
  "rf_split_cell c NaN = ([], c)"
| "rf_split_cell c (Str s) =
     (if s = [] then ([], c)
      else let parts = (if CHR '','' \<in> set s then map strip (split_comma s) else [strip s])
           in norm_list c (filter (\<lambda>p. p \<noteq> [] \<and> lower p \<noteq> ''nan'') parts))"

text \<open>The loop of \<open>_prepare\<close> over the symptom columns of one row.\<close>

fun rf_row_cols :: "cache \<Rightarrow> string set \<Rightarrow> cell list \<Rightarrow> string set \<times> cache" where
  "rf_row_cols c sset [] = (sset, c)"
| "rf_row_cols c sset (x # xs) =
     (let (toks, c1) = rf_split_cell c x
      in rf_row_cols c1 (sset \<union> set (filter (\<lambda>t. t \<noteq> []) toks)) xs)"

text \<open>The loop of \<open>_prepare\<close> over the rows.\<close>

fun rf_rows ::
  "cache \<Rightarrow> string set \<Rightarrow> string set list \<Rightarrow> dataset \<Rightarrow> string set \<times> string set list \<times> cache"
where
  "rf_rows c vocab row_sets [] = (vocab, row_sets, c)"
| "rf_rows c vocab row_sets (r # rs) =
     (let (sset, c1) = rf_row_cols c {} (symptom_cells r)
      in rf_rows c1 (vocab \<union> sset) (row_sets @ [sset]) rs)"

text \<open>\<open>{s: i for i, s in enumerate(xs)}\<close>: a later entry replaces an earlier one.\<close>

definition index_of :: "string list \<Rightarrow> string \<rightharpoonup> nat" where
  "index_of xs = fold (\<lambda>(i, s) m. m(s \<mapsto> i)) (enumerate 0 xs) Map.empty"

definition rf_prepare :: "rf_engine \<Rightarrow> rf_engine" where
  "rf_prepare e =
     (let (vocab, row_sets, c) = rf_rows (normalize_cache e) {} [] (df e);
          sv = sorted_list_of_set vocab
      in e\<lparr>normalize_cache := c, symptom_vocab := sv, symptom_index := index_of sv,
            row_symptom_sets := row_sets\<rparr>)"

text \<open>The engine as \<open>__init__\<close> has it when \<open>_prepare\<close> returns, before the model is fitted.\<close>

definition rf_init :: "dataset \<Rightarrow> rf_engine" where
  "rf_init d =
     rf_prepare \<lparr>df = d, normalize_cache = Map.empty, symptom_vocab = [],
                 symptom_index = Map.empty, model = None, row_symptom_sets = []\<rparr>"

text \<open>\<open>vec[idx] = 1\<close> on a numpy array: an index past the end raises.\<close>

definition set_item :: "'a list \<Rightarrow> nat \<Rightarrow> 'a \<Rightarrow> error + 'a list" where
  "set_item vec i v = (if i < length vec then Inr (vec[i := v]) else Inl IndexError)"

text \<open>The loop of \<open>_vectorize\<close>.\<close>

fun vectorize_loop ::
  "(string \<rightharpoonup> nat) \<Rightarrow> cache \<Rightarrow> 8 word list \<Rightarrow> string list \<Rightarrow> (error + 8 word list) \<times> cache"
where
  "vectorize_loop idx c vec [] = (Inr vec, c)"
| "vectorize_loop idx c vec (s # ss) =
     (let (ns, c1) = norm_sym c s
      in case idx ns of
           None \<Rightarrow> vectorize_loop idx c1 vec ss
         | Some i \<Rightarrow>
             (case set_item vec i 1 of
                Inl err \<Rightarrow> (Inl err, c1)
              | Inr vec1 \<Rightarrow> vectorize_loop idx c1 vec1 ss))"

definition vectorize :: "rf_engine \<Rightarrow> string list \<Rightarrow> (error + 8 word list) \<times> rf_engine" where
  "vectorize e symptoms =
     (let (r, c) = vectorize_loop (symptom_index e) (normalize_cache e)
                     (replicate (length (symptom_vocab e)) 0) symptoms
      in (r, e\<lparr>normalize_cache := c\<rparr>))"

text \<open>\<open>vec.sum()\<close>: numpy adds the bytes in a wider integer.\<close>

definition vec_sum :: "8 word list \<Rightarrow> nat" where
  "vec_sum vec = sum_list (map unat vec)"

text \<open>\<open>np.argmax\<close>: the first index of the greatest entry; an empty array raises.\<close>

fun argmax_loop :: "nat \<Rightarrow> nat \<Rightarrow> rat \<Rightarrow> rat list \<Rightarrow> nat" where
  "argmax_loop i best v [] = best"
| "argmax_loop i best v (x # xs) =
     (if v < x then argmax_loop (Suc i) i x xs else argmax_loop (Suc i) best v xs)"

definition argmax :: "rat list \<Rightarrow> error + nat" where
  "argmax xs = (case xs of [] \<Rightarrow> Inl ValueError | x # rest \<Rightarrow> Inr (argmax_loop 1 0 x rest))"

text \<open>
  \<open>np.argsort(proba)[::-1][:3]\<close>. numpy leaves the order of equal entries to its sorting
  routine; the model sorts stably.
\<close>

definition top3 :: "rat list \<Rightarrow> nat list" where
  "top3 proba = take 3 (rev (sort_key (\<lambda>i. proba ! i) [0..<length proba]))"

text \<open>One recommendation column, with the default for a blank, \<open>nan\<close> or \<open>none\<close>.\<close>

definition recommendation :: "row \<Rightarrow> string \<Rightarrow> string \<Rightarrow> string" where
  "recommendation r name dflt =
     (let t = get_text r name
      in if t = [] \<or> lower t \<in> {''nan'', ''none'', []} then dflt else t)"

definition row_recommendations :: "row \<Rightarrow> string \<times> string \<times> string" where
  "row_recommendations r =
     (recommendation r ''Medicine'' ''Consult a healthcare provider'',
      recommendation r ''Diet Recommendation'' ''Maintain a balanced diet'',
      recommendation r ''Foods To Avoid'' ''No specific foods to avoid mentioned'')"

text \<open>The loop of \<open>_best_recommendations\<close> over the rows and their symptom sets.\<close>

fun best_row_loop ::
  "string \<Rightarrow> string set \<Rightarrow> row option \<Rightarrow> int \<Rightarrow> (row \<times> string set) list \<Rightarrow> row option"
where
  "best_row_loop d input_norm best_row best_inter_size [] = best_row"
| "best_row_loop d input_norm best_row best_inter_size ((r, sset) # rest) =
     (if disease r \<noteq> d then best_row_loop d input_norm best_row best_inter_size rest
      else let inter_size = int (card (input_norm \<inter> sset))
           in if best_inter_size < inter_size
              then best_row_loop d input_norm (Some r) inter_size rest
              else best_row_loop d input_norm best_row best_inter_size rest)"

definition best_recommendations ::
  "rf_engine \<Rightarrow> string \<Rightarrow> string list \<Rightarrow> (error + string \<times> string \<times> string) \<times> rf_engine"
where
  "best_recommendations e d input_symptoms =
     (let (vs, c) = norm_list (normalize_cache e) (filter (\<lambda>s. s \<noteq> []) input_symptoms);
          e1 = e\<lparr>normalize_cache := c\<rparr>
      in case best_row_loop d (set vs) None (- 1) (zip (df e) (row_symptom_sets e)) of
           Some r \<Rightarrow> (Inr (row_recommendations r), e1)
         | None \<Rightarrow>
             (case filter (\<lambda>r. disease r = d) (df e) of
                [] \<Rightarrow> (Inl IndexError, e1)
              | r # _ \<Rightarrow> (Inr (row_recommendations r), e1)))"

definition rf_plain :: "string \<Rightarrow> status \<Rightarrow> result" where
  "rf_plain msg st =
     \<lparr>predicted_disease = ''Unknown'', confidence = 0, medicine_recommendation = msg,
      diet_recommendation = em_dash, foods_to_avoid = Some em_dash, status = st,
      candidates = None, debug = None\<rparr>"

text \<open>The part of \<open>predict\<close> that consults the classifier, from \<open>predict_proba\<close> on.\<close>

definition rf_classify ::
  "classifier \<Rightarrow> 8 word list \<Rightarrow> rf_engine \<Rightarrow> string list \<Rightarrow> (error + result) \<times> rf_engine"
where
  "rf_classify m vec e1 symptoms =
     (let proba = predict_proba m vec
      in case argmax proba of
           Inl err \<Rightarrow> (Inl err, e1)
         | Inr top_idx \<Rightarrow>
            (if \<not> top_idx < length (classes m) then (Inl IndexError, e1)
             else
               (let top_disease = classes m ! top_idx;
                    conf = py_round1 (proba ! top_idx * 100);
                    order = top3 proba
                in if \<exists>i \<in> set order. \<not> i < length (classes m) then (Inl IndexError, e1)
                   else
                     (let top_candidates =
                            map (\<lambda>i. (classes m ! i, py_round1 (proba ! i * 100))) order
                      in (case best_recommendations e1 top_disease symptoms of
                            (Inl err, e2) \<Rightarrow> (Inl err, e2)
                          | (Inr (med, diet, avoid), e2) \<Rightarrow>
                              (Inr \<lparr>predicted_disease = top_disease, confidence = conf,
                                    medicine_recommendation = med,
                                    diet_recommendation = diet,
                                    foods_to_avoid = Some avoid, status = Success,
                                    candidates = Some top_candidates, debug = None\<rparr>,
                               e2))))))"

definition rf_predict :: "rf_engine \<Rightarrow> string list \<Rightarrow> (error + result) \<times> rf_engine" where
  "rf_predict e symptoms =
     (if symptoms = [] then (Inr (rf_plain ''Provide at least one symptom'' NoSymptoms), e)
      else (case model e of
        None \<Rightarrow> (Inr (rf_plain ''Model not ready'' Error), e)
      | Some m \<Rightarrow>
         (case vectorize e symptoms of
            (Inl err, e1) \<Rightarrow> (Inl err, e1)
          | (Inr vec, e1) \<Rightarrow>
             (if vec_sum vec = 0
              then (Inr (rf_plain ''Symptoms not found in dataset vocabulary'' Unrecognized), e1)
              else rf_classify m vec e1 symptoms))))"



section \<open>The overlap engine\<close>

record compiled_row =
  cr_disease :: string
  cr_symptoms :: "string set"
  cr_medicine :: string
  cr_diet :: string
  cr_row_index :: nat

record ov_engine =
  ov_df :: dataset
  min_threshold :: rat
  compiled_rows :: "compiled_row list"
  ov_normalize_cache :: cache
  available_symptoms :: "string list"

text \<open>
  \<open>_split_cell\<close> of this engine, which \<open>_prepare\<close> calls on \<open>str(cell)\<close>: the parts are
  normalised first and the empty results dropped.
\<close>

definition ov_split_cell :: "cache \<Rightarrow> string \<Rightarrow> string list \<times> cache" where
  "ov_split_cell c s =
     (if s = [] then ([], c)
      else let (parts, c1) = (if CHR '','' \<in> set s then norm_list c (split_comma s)
                              else norm_list c [s])
           in (filter (\<lambda>p. p \<noteq> []) parts, c1))"

fun ov_row_cols :: "cache \<Rightarrow> string set \<Rightarrow> cell list \<Rightarrow> string set \<times> cache" where
  "ov_row_cols c sset [] = (sset, c)"
| "ov_row_cols c sset (x # xs) =
     (let (toks, c1) = ov_split_cell c (str_of x) in ov_row_cols c1 (sset \<union> set toks) xs)"

fun ov_rows ::
  "cache \<Rightarrow> compiled_row list \<Rightarrow> (nat \<times> row) list \<Rightarrow> compiled_row list \<times> cache"
where
  "ov_rows c acc [] = (acc, c)"
| "ov_rows c acc ((idx, r) # rs) =
     (let (sset, c1) = ov_row_cols c {} (symptom_cells r)
      in ov_rows c1
           (acc @ [\<lparr>cr_disease = disease r, cr_symptoms = sset,
                    cr_medicine = get_text r ''Medicine Recommendation'',
                    cr_diet = get_text r ''Diet Recommendation'',
                    cr_row_index = idx\<rparr>])
           rs)"

definition ov_prepare :: "ov_engine \<Rightarrow> ov_engine" where
  "ov_prepare e =
     (let (rows, c) = ov_rows (ov_normalize_cache e) (compiled_rows e) (enumerate 0 (ov_df e));
          all_symptoms = fold (\<lambda>r acc. acc \<union> cr_symptoms r) rows {}
      in e\<lparr>compiled_rows := rows, ov_normalize_cache := c,
            available_symptoms := sorted_list_of_set all_symptoms\<rparr>)"

definition ov_init :: "dataset \<Rightarrow> rat \<Rightarrow> ov_engine" where
  "ov_init d thr =
     ov_prepare \<lparr>ov_df = d, min_threshold = thr, compiled_rows = [],
                 ov_normalize_cache = Map.empty, available_symptoms = []\<rparr>"

text \<open>
  One round of the scoring loop: no score for a row that shares nothing with the input
  (\<open>continue\<close>), otherwise the intersection and \<open>len(inter) / len(union)\<close>.
\<close>

definition row_score :: "string set \<Rightarrow> compiled_row \<Rightarrow> (string set \<times> rat) option" where
  "row_score input_norm r =
     (let inter_set = input_norm \<inter> cr_symptoms r
      in if inter_set = {} then None
         else Some (inter_set,
                    of_nat (card inter_set) / of_nat (card (input_norm \<union> cr_symptoms r))))"

text \<open>\<open>best\<close> is the row with its intersection and score; \<open>best_score\<close> is kept beside it.\<close>

fun score_rows ::
  "string set \<Rightarrow> (compiled_row \<times> string set \<times> rat) option \<Rightarrow> rat \<Rightarrow> compiled_row list
     \<Rightarrow> (compiled_row \<times> string set \<times> rat) option \<times> rat"
where
  "score_rows input_norm best best_score [] = (best, best_score)"
| "score_rows input_norm best best_score (r # rs) =
     (case row_score input_norm r of
        None \<Rightarrow> score_rows input_norm best best_score rs
      | Some (inter_set, sc) \<Rightarrow>
          (if best_score < sc then score_rows input_norm (Some (r, inter_set, sc)) sc rs
           else (case best of
                   Some (b, b_inter, b_sc) \<Rightarrow>
                     (if \<bar>sc - best_score\<bar> < 1 / 10 ^ 9 \<and> card b_inter < card inter_set
                      then score_rows input_norm (Some (r, inter_set, sc)) best_score rs
                      else score_rows input_norm best best_score rs)
                 | None \<Rightarrow> score_rows input_norm best best_score rs)))"

definition ov_plain :: "string \<Rightarrow> status \<Rightarrow> result" where
  "ov_plain msg st =
     \<lparr>predicted_disease = ''Unknown'', confidence = 0, medicine_recommendation = msg,
      diet_recommendation = em_dash, foods_to_avoid = None, status = st,
      candidates = None, debug = None\<rparr>"

definition ov_low_match :: "rat \<Rightarrow> rat \<Rightarrow> result" where
  "ov_low_match best_score thr =
     \<lparr>predicted_disease = ''Unknown'', confidence = py_round1 (best_score * 100),
      medicine_recommendation = ''Insufficient dataset match. Refine symptoms.'',
      diet_recommendation = ''General balanced diet, hydration, rest.'',
      foods_to_avoid = None, status = LowMatch, candidates = None,
      debug = Some (LowMatchDebug best_score thr)\<rparr>"

text \<open>The set \<open>input_norm\<close> of \<open>predict\<close>, with the cache its comprehension leaves.\<close>

definition ov_input_norm :: "cache \<Rightarrow> string list \<Rightarrow> string set \<times> cache" where
  "ov_input_norm c symptoms =
     (let (vs, c1) = norm_list c (filter (\<lambda>s. s \<noteq> []) symptoms) in (set vs, c1))"

definition ov_predict :: "ov_engine \<Rightarrow> string list \<Rightarrow> result \<times> ov_engine" where
  "ov_predict e symptoms =
     (if symptoms = [] then (ov_plain ''Provide at least one symptom'' NoSymptoms, e)
      else
        (let (input_norm, c) = ov_input_norm (ov_normalize_cache e) symptoms;
             e1 = e\<lparr>ov_normalize_cache := c\<rparr>
         in if input_norm = {}
            then (ov_plain ''Symptoms not recognized in dataset'' Unrecognized, e1)
            else
              (case score_rows input_norm None 0 (compiled_rows e) of
                 (None, best_score) \<Rightarrow> (ov_low_match best_score (min_threshold e), e1)
               | (Some (r, inter_set, sc), best_score) \<Rightarrow>
                   (if best_score < min_threshold e
                    then (ov_low_match best_score (min_threshold e), e1)
                    else
                      (\<lparr>predicted_disease = cr_disease r,
                        confidence = py_round1 (best_score * 100),
                        medicine_recommendation =
                          (if cr_medicine r = [] then ''Consult a healthcare provider''
                           else cr_medicine r),
                        diet_recommendation =
                          (if cr_diet r = [] then ''Maintain balanced diet'' else cr_diet r),
                        foods_to_avoid = None, status = Success, candidates = None,
                        debug = Some (SuccessDebug best_score (sorted_list_of_set inter_set)
                                        (sorted_list_of_set input_norm) (cr_row_index r))\<rparr>,
                       e1)))))"



section \<open>The feature vector of the custom engine\<close>

definition normalize_symptom :: "string \<Rightarrow> string" where
  "normalize_symptom symptom =
     (if symptom = [] \<or> symptom = ''nan'' then []
      else replace_space (sub_space (lower (strip symptom))))"

record custom_engine =
  symptoms_list :: "string list"
  symptom_to_encoded :: "string \<rightharpoonup> nat"

text \<open>The loop of \<open>_create_feature_vector\<close> over the normalised symptoms; the vector holds floats 0.0 and 1.0.\<close>

fun feature_loop :: "(string \<rightharpoonup> nat) \<Rightarrow> rat list \<Rightarrow> string list \<Rightarrow> error + rat list" where
  "feature_loop enc vec [] = Inr vec"
| "feature_loop enc vec (s # ss) =
     (case enc s of
        None \<Rightarrow> feature_loop enc vec ss
      | Some i \<Rightarrow>
          (case set_item vec i 1 of
             Inl err \<Rightarrow> Inl err
           | Inr vec1 \<Rightarrow> feature_loop enc vec1 ss))"

definition create_feature_vector :: "custom_engine \<Rightarrow> string list \<Rightarrow> error + rat list" where
  "create_feature_vector e symptoms =
     feature_loop (symptom_to_encoded e) (replicate (length (symptoms_list e)) 0)
       (map normalize_symptom symptoms)"

section \<open>Notions the properties are stated with\<close>

text \<open>
  What each engine's \<open>_split_cell\<close> and \<open>_prepare\<close> keep of one cell, written without the
  cache. These follow the code: the random-forest engine skips a missing cell and the
  text \<open>nan\<close>; the overlap engine reads \<open>str(cell)\<close>, so that for a missing cell it keeps
  the token \<open>nan\<close>.
\<close>

fun rf_cell_tokens :: "cell \<Rightarrow> string list" where
  "rf_cell_tokens NaN = []"
| "rf_cell_tokens (Str s) =
     (if s = [] then []
      else filter (\<lambda>t. t \<noteq> [])
             (map norm_value
                (filter (\<lambda>p. p \<noteq> [] \<and> lower p \<noteq> ''nan'')
                   (if CHR '','' \<in> set s then map strip (split_comma s) else [strip s]))))"

definition ov_cell_tokens :: "cell \<Rightarrow> string list" where
  "ov_cell_tokens x =
     (let s = str_of x
      in if s = [] then []
         else filter (\<lambda>t. t \<noteq> [])
                (map norm_value (if CHR '','' \<in> set s then split_comma s else [s])))"

definition rf_row_tokens :: "row \<Rightarrow> string set" where
  "rf_row_tokens r = (\<Union>x \<in> set (symptom_cells r). set (rf_cell_tokens x))"

definition ov_row_tokens :: "row \<Rightarrow> string set" where
  "ov_row_tokens r = (\<Union>x \<in> set (symptom_cells r). set (ov_cell_tokens x))"

text \<open>
  The symptom tokens of a cell and of a row in the specification's words: a cell may hold
  several symptoms separated by commas, each is normalised on its own, and the results
  that are neither empty nor the missing-value marker are kept; a missing cell holds none.
\<close>

fun spec_cell_tokens :: "cell \<Rightarrow> string list" where
  "spec_cell_tokens NaN = []"
| "spec_cell_tokens (Str s) =
     filter (\<lambda>t. t \<noteq> [] \<and> t \<noteq> ''nan'') (map norm_value (split_comma s))"

definition spec_row_tokens :: "row \<Rightarrow> string set" where
  "spec_row_tokens r = (\<Union>x \<in> set (symptom_cells r). set (spec_cell_tokens x))"

text \<open>
  The value of \<open>best_score\<close> when the scoring loop of the overlap engine's \<open>predict\<close> has
  run over all compiled rows for an input.
\<close>

definition ov_best_score :: "ov_engine \<Rightarrow> string list \<Rightarrow> rat" where
  "ov_best_score e symptoms =
     snd (score_rows (fst (ov_input_norm (ov_normalize_cache e) symptoms)) None 0
            (compiled_rows e))"

text \<open>
  The contract of scikit-learn's \<open>predict_proba\<close> for the engine's model, if it has one:
  every entry of every row it returns is a probability.
\<close>

definition proba_in_unit :: "rf_engine \<Rightarrow> bool" where
  "proba_in_unit e =
     (\<forall>m v p. model e = Some m \<longrightarrow> p \<in> set (predict_proba m v) \<longrightarrow> 0 \<le> p \<and> p \<le> 1)"

text \<open>No two neighbours of a string are both in the class \<open>[_\s]\<close>.\<close>

fun no_adj :: "string \<Rightarrow> bool" where
  "no_adj [] = True"
| "no_adj [c] = True"
| "no_adj (c # d # cs) = (\<not> (is_sep c \<and> is_sep d) \<and> no_adj (d # cs))"



section \<open>A small dataset\<close>

definition flu_row :: row where
  "flu_row =
     \<lparr>disease = ''Flu'',
      symptom_cells = [Str ''Fever'', Str ''cough, Fatigue''],
      columns = [''Medicine Recommendation'' \<mapsto> Str ''Rest'', ''Medicine'' \<mapsto> Str ''Rest'']\<rparr>"

definition cold_row :: row where
  "cold_row =
     \<lparr>disease = ''Cold'',
      symptom_cells = [Str ''cough'', Str ''Sneezing''],
      columns = [''Diet Recommendation'' \<mapsto> NaN]\<rparr>"

text \<open>A row whose second symptom cell is missing.\<close>

definition gap_row :: row where
  "gap_row = \<lparr>disease = ''Cold'', symptom_cells = [Str ''cough'', NaN], columns = Map.empty\<rparr>"

definition ex_clf :: classifier where
  "ex_clf =
     \<lparr>classes = [''Cold'', ''Flu''],
      predict_proba = (\<lambda>v. if v ! 1 = 1 then [1 / 3, 2 / 3] else [3 / 4, 1 / 4])\<rparr>"

definition ex_rf :: rf_engine where
  "ex_rf = (rf_init [flu_row, cold_row, gap_row])\<lparr>model := Some ex_clf\<rparr>"

definition ex_ov :: ov_engine where
  "ex_ov = ov_init [flu_row, cold_row] (12 / 100)"

text \<open>
  The two diseases of the specification's scenario in a frame of three symptom columns:
  Cold has two symptoms, so its third cell is missing.
\<close>

definition flu3 :: row where
  "flu3 =
     \<lparr>disease = ''Flu'', symptom_cells = [Str ''fever'', Str ''cough'', Str ''fatigue''],
      columns = Map.empty\<rparr>"

definition cold3 :: row where
  "cold3 =
     \<lparr>disease = ''Cold'', symptom_cells = [Str ''cough'', Str ''sneezing'', NaN],
      columns = Map.empty\<rparr>"

definition ex_ov3 :: ov_engine where
  "ex_ov3 = ov_init [flu3, cold3] (12 / 100)"

definition ex_custom :: custom_engine where
  "ex_custom =
     \<lparr>symptoms_list = [''cough'', ''fever'', ''fever''],
      symptom_to_encoded = [''cough'' \<mapsto> 0, ''fever'' \<mapsto> 2]\<rparr>"

section \<open>Characters and the string functions\<close>

lemma of_char_lower_char:
  "(of_char (lower_char c) :: nat) =
     (let n = (of_char c :: nat)
      in if (65 \<le> n \<and> n \<le> 90) \<or> (192 \<le> n \<and> n \<le> 222 \<and> n \<noteq> 215) then n + 32 else n)"
  by (simp add: lower_char_def Let_def)

lemma lower_char_idem: "lower_char (lower_char c) = lower_char c"
proof -
  have "(of_char (lower_char (lower_char c)) :: nat) = of_char (lower_char c)"
    by (simp add: of_char_lower_char Let_def)
  then show ?thesis by (simp only: of_char_eq_iff)
qed

lemma isspace_lower_char: "isspace (lower_char c) = isspace c"
  by (auto simp add: isspace_def of_char_lower_char Let_def)

lemma underscore_lower_char: "(lower_char c = CHR ''_'') = (c = CHR ''_'')"
proof -
  have "((of_char (lower_char c) :: nat) = of_char CHR ''_'') = ((of_char c :: nat) = of_char CHR ''_'')"
    by (auto simp add: of_char_lower_char Let_def)
  then show ?thesis by (simp only: of_char_eq_iff)
qed

lemma is_sep_lower_char: "is_sep (lower_char c) = is_sep c"
  by (simp add: is_sep_def isspace_lower_char underscore_lower_char)

lemma blank_is_space: "isspace CHR '' ''"
  by (simp add: isspace_def)

lemma blank_is_sep: "is_sep CHR '' ''"
  by (simp add: is_sep_def isspace_def)

lemma underscore_is_sep: "is_sep CHR ''_''"
  by (simp add: is_sep_def)

lemma no_adj_Cons: "no_adj (c # w) = ((w = [] \<or> \<not> (is_sep c \<and> is_sep (hd w))) \<and> no_adj w)"
  by (cases w) auto

lemma no_adj_append_left: "no_adj (a @ b) \<Longrightarrow> no_adj b"
  by (induction a) (auto simp: no_adj_Cons)

lemma no_adj_append_right: "no_adj (a @ b) \<Longrightarrow> no_adj a"
  by (induction a) (auto simp: no_adj_Cons hd_append split: if_splits)

lemma no_adj_map: "(\<And>c. is_sep (f c) = is_sep c) \<Longrightarrow> no_adj (map f w) = no_adj w"
  by (induction w rule: no_adj.induct) auto

lemma sub_space_sep_blank: "c \<in> set (sub_space u) \<Longrightarrow> is_sep c \<Longrightarrow> c = CHR '' ''"
  by (induction u rule: sub_space.induct) (auto split: if_splits)

lemma sub_space_set: "set (sub_space u) \<subseteq> insert CHR '' '' (set u)"
proof (induction u rule: sub_space.induct)
  case 1
  show ?case by simp
next
  case (2 c cs)
  have "set (dropWhile is_sep cs) \<subseteq> set cs"
    by (rule set_dropWhileD[THEN subsetI])
  with 2 show ?case by (auto split: if_splits)
qed

lemma sub_space_dropWhile_hd:
  "sub_space (dropWhile is_sep cs) = [] \<or> \<not> is_sep (hd (sub_space (dropWhile is_sep cs)))"
proof (cases "dropWhile is_sep cs")
  case Nil
  have "sub_space (dropWhile is_sep cs) = []" by (simp only: Nil sub_space.simps)
  then show ?thesis by (rule disjI1)
next
  case (Cons d ds)
  then have "\<not> is_sep d" by (metis hd_dropWhile list.sel(1) list.distinct(1))
  with Cons show ?thesis by simp
qed

lemma sub_space_no_adj: "no_adj (sub_space u)"
proof (induction u rule: sub_space.induct)
  case 1
  show ?case by simp
next
  case (2 c cs)
  show ?case
  proof (cases "is_sep c")
    case True
    with 2 sub_space_dropWhile_hd[of cs] show ?thesis by (auto simp: no_adj_Cons)
  next
    case False
    with 2 show ?thesis by (auto simp: no_adj_Cons)
  qed
qed

lemma sub_space_no_adj_eq:
  "no_adj t \<Longrightarrow> sub_space t = map (\<lambda>c. if is_sep c then CHR '' '' else c) t"
proof (induction t rule: no_adj.induct)
  case 1
  show ?case by simp
next
  case (2 c)
  show ?case by simp
next
  case (3 c d cs)
  then show ?case by auto
qed

lemma strip_decomp: "\<exists>a b. w = a @ strip w @ b"
proof -
  have 1: "w = takeWhile isspace w @ dropWhile isspace w" by simp
  let ?v = "dropWhile isspace w"
  have "rev ?v = takeWhile isspace (rev ?v) @ dropWhile isspace (rev ?v)" by simp
  then have "?v = rev (dropWhile isspace (rev ?v)) @ rev (takeWhile isspace (rev ?v))"
    by (metis rev_append rev_rev_ident)
  then have "?v = strip w @ rev (takeWhile isspace (rev ?v))" by (simp add: strip_def)
  with 1 show ?thesis by metis
qed

lemma strip_ends:
  "strip w = [] \<or> (\<not> isspace (hd (strip w)) \<and> \<not> isspace (last (strip w)))"
proof (cases "strip w = []")
  case True
  then show ?thesis by simp
next
  case False
  let ?v = "dropWhile isspace w"
  let ?r = "dropWhile isspace (rev ?v)"
  from False have r: "?r \<noteq> []" by (simp add: strip_def)
  then have "\<not> isspace (hd ?r)" by (rule hd_dropWhile)
  then have l: "\<not> isspace (last (strip w))" using r by (simp add: strip_def last_rev)
  from r have v: "?v \<noteq> []" by (auto simp del: dropWhile_eq_Nil_conv)
  then have hv: "\<not> isspace (hd ?v)" by (rule hd_dropWhile)
  have "rev ?v = takeWhile isspace (rev ?v) @ ?r" by simp
  then have "?v = rev ?r @ rev (takeWhile isspace (rev ?v))"
    by (metis rev_append rev_rev_ident)
  then have "hd ?v = hd (rev ?r)" using r by (metis hd_append2 rev_is_Nil_conv)
  then have "hd (strip w) = hd ?v" by (simp add: strip_def)
  with hv l show ?thesis by simp
qed

lemma strip_fix:
  assumes "t = [] \<or> (\<not> isspace (hd t) \<and> \<not> isspace (last t))"
  shows "strip t = t"
proof (cases "t = []")
  case True
  then show ?thesis by (simp add: strip_def)
next
  case False
  with assms have h: "\<not> isspace (hd t)" and l: "\<not> isspace (last t)" by auto
  from False h have 1: "dropWhile isspace t = t" by (cases t) auto
  from False l have "dropWhile isspace (rev t) = rev t"
    by (cases t rule: rev_cases) auto
  with 1 show ?thesis by (simp add: strip_def)
qed

lemma strip_idem: "strip (strip w) = strip w"
  by (rule strip_fix) (rule strip_ends)

lemma no_adj_strip: "no_adj w \<Longrightarrow> no_adj (strip w)"
  using strip_decomp[of w] by (metis no_adj_append_left no_adj_append_right)

lemma set_strip: "set (strip w) \<subseteq> set w"
  using strip_decomp[of w] by (metis Un_upper1 Un_upper2 set_append subset_trans)

lemma is_sep_replace: "is_sep (if c = CHR '' '' then CHR ''_'' else c) = is_sep c"
  by (simp add: blank_is_sep underscore_is_sep)

lemma norm_value_idem: "norm_value (norm_value s) = norm_value s"
proof -
  define u where "u = lower (strip s)"
  define x where "x = strip (sub_space u)"
  define t where "t = replace_space x"
  have t: "norm_value s = t" by (simp add: norm_value_def t_def x_def u_def)
  have x_sep: "\<And>c. c \<in> set x \<Longrightarrow> is_sep c \<Longrightarrow> c = CHR '' ''"
    using set_strip[of "sub_space u"] sub_space_sep_blank[of _ u] by (auto simp: x_def)
  have x_adj: "no_adj x" by (simp add: x_def no_adj_strip sub_space_no_adj)
  have x_ends: "x = [] \<or> (\<not> isspace (hd x) \<and> \<not> isspace (last x))"
    unfolding x_def by (rule strip_ends)
  have x_low: "\<And>c. c \<in> set x \<Longrightarrow> lower_char c = c"
  proof -
    fix c assume "c \<in> set x"
    then have "c \<in> insert CHR '' '' (set u)"
      using set_strip[of "sub_space u"] sub_space_set[of u] by (auto simp: x_def)
    then show "lower_char c = c"
      by (auto simp: u_def lower_def lower_char_idem) (simp add: lower_char_def)
  qed
  have x_ends_sep: "x = [] \<or> (\<not> is_sep (hd x) \<and> \<not> is_sep (last x))"
  proof (cases "x = []")
    case True
    then show ?thesis by simp
  next
    case False
    then have "hd x \<in> set x" "last x \<in> set x" by simp_all
    with x_sep x_ends False blank_is_space show ?thesis by metis
  qed
  have t_ends: "t = [] \<or> (\<not> isspace (hd t) \<and> \<not> isspace (last t))"
  proof (cases "x = []")
    case True
    then show ?thesis by (simp add: t_def replace_space_def)
  next
    case False
    with x_ends_sep have "hd x \<noteq> CHR '' ''" "last x \<noteq> CHR '' ''"
      using blank_is_sep by auto
    with False x_ends show ?thesis
      by (simp add: t_def replace_space_def hd_map last_map)
  qed
  have s1: "strip t = t" using t_ends by (rule strip_fix)
  have s2: "lower t = t"
    unfolding t_def replace_space_def lower_def
  proof (rule map_idI)
    fix c assume "c \<in> set (map (\<lambda>c. if c = CHR '' '' then CHR ''_'' else c) x)"
    then have "c = CHR ''_'' \<or> c \<in> set x" by auto
    then show "lower_char c = c"
    proof
      assume "c = CHR ''_''"
      then show ?thesis by (simp add: lower_char_def)
    next
      assume "c \<in> set x"
      then show ?thesis by (rule x_low)
    qed
  qed
  have t_adj: "no_adj t"
    unfolding t_def replace_space_def using x_adj is_sep_replace by (simp add: no_adj_map)
  have s3: "sub_space t = x"
  proof -
    have "sub_space t = map (\<lambda>c. if is_sep c then CHR '' '' else c) t"
      using t_adj by (rule sub_space_no_adj_eq)
    also have "\<dots> = map (\<lambda>c. c) x"
      unfolding t_def replace_space_def map_map
      by (rule map_cong) (auto simp: underscore_is_sep dest: x_sep)
    finally show ?thesis by simp
  qed
  have s4: "strip x = x" unfolding x_def by (rule strip_idem)
  have "norm_value t = t"
    unfolding norm_value_def s1 s2 s3 s4 by (simp add: t_def)
  with t show ?thesis by simp
qed

section \<open>The normaliser and its cache\<close>

lemma norm_value_Nil: "norm_value [] = []"
  by (simp add: norm_value_def strip_def lower_def replace_space_def)

lemma norm_sym_fst: "cache_ok c \<Longrightarrow> fst (norm_sym c s) = norm_value s"
  by (auto simp: norm_sym_def cache_ok_def norm_value_Nil Let_def split: option.splits)

lemma norm_sym_ok: "cache_ok c \<Longrightarrow> cache_ok (snd (norm_sym c s))"
  by (auto simp: norm_sym_def cache_ok_def Let_def split: option.splits)

lemma norm_sym_mono: "c \<subseteq>\<^sub>m snd (norm_sym c s)"
  by (auto simp: norm_sym_def map_le_def Let_def split: option.splits)

lemma norm_list_fst: "cache_ok c \<Longrightarrow> fst (norm_list c ps) = map norm_value ps"
proof (induction ps arbitrary: c)
  case Nil
  show ?case by simp
next
  case (Cons p ps)
  from Cons.prems have "cache_ok (snd (norm_sym c p))" by (rule norm_sym_ok)
  then have "fst (norm_list (snd (norm_sym c p)) ps) = map norm_value ps" by (rule Cons.IH)
  with Cons.prems show ?case
    by (simp add: split_beta norm_sym_fst)
qed

lemma norm_list_ok: "cache_ok c \<Longrightarrow> cache_ok (snd (norm_list c ps))"
  by (induction ps arbitrary: c) (simp_all add: split_beta norm_sym_ok)

lemma norm_list_mono: "c \<subseteq>\<^sub>m snd (norm_list c ps)"
proof (induction ps arbitrary: c)
  case Nil
  show ?case by simp
next
  case (Cons p ps)
  have "c \<subseteq>\<^sub>m snd (norm_sym c p)" by (rule norm_sym_mono)
  also have "\<dots> \<subseteq>\<^sub>m snd (norm_list (snd (norm_sym c p)) ps)" by (rule Cons.IH)
  finally show ?case by (simp add: split_beta)
qed

lemma cache_ok_empty: "cache_ok Map.empty"
  by (simp add: cache_ok_def)

text \<open>
  Claim C7. Normalisation is idempotent: the value \<open>_norm\<close> computes for a string is its
  own normal form, and so is what the method returns, whatever the cache holds from
  earlier calls (a cache that \<open>_norm\<close> itself filled).
\<close>

theorem norm_idempotent:
  "norm_value (norm_value s) = norm_value s \<and>
   (cache_ok c \<longrightarrow> cache_ok c' \<longrightarrow>
      fst (norm_sym c' (fst (norm_sym c s))) = fst (norm_sym c s))"
  by (simp add: norm_value_idem norm_sym_fst)

theorem norm_idempotent_witness:
  "cache_ok Map.empty \<and> cache_ok (snd (norm_sym Map.empty ''  High__Fever  ''))
   \<and> fst (norm_sym Map.empty ''  High__Fever  '') = ''high_fever''
   \<and> fst (norm_sym (snd (norm_sym Map.empty ''  High__Fever  '')) ''high_fever'') = ''high_fever''"
proof -
  have 1: "cache_ok Map.empty" by (simp add: cache_ok_def)
  then have 2: "cache_ok (snd (norm_sym Map.empty ''  High__Fever  ''))" by (rule norm_sym_ok)
  have 3: "fst (norm_sym Map.empty ''  High__Fever  '') = ''high_fever''" by code_simp
  from norm_idempotent[of "''  High__Fever  ''" Map.empty
         "snd (norm_sym Map.empty ''  High__Fever  '')"] 1 2 3
  show ?thesis by simp
qed

section \<open>Scores, probabilities and the confidence\<close>

lemma py_round1_bounds:
  assumes "0 \<le> x" "x \<le> 100"
  shows "0 \<le> py_round1 x \<and> py_round1 x \<le> 100"
proof -
  define y where "y = x * 10"
  define f where "f = \<lfloor>y\<rfloor>"
  define k where "k = (if y - of_int f < 1 / 2 then f else if 1 / 2 < y - of_int f then f + 1
                        else if even f then f else f + 1)"
  have y: "0 \<le> y" "y \<le> 1000" using assms by (simp_all add: y_def)
  then have f0: "0 \<le> f" by (simp add: f_def)
  have f1: "f \<le> 1000" using y by (simp add: f_def floor_le_iff) 
  have "k \<le> 1000"
  proof (cases "f = 1000")
    case True
    then have "y - of_int f = 0" using y of_int_floor_le[of y] by (simp add: f_def)
    then show ?thesis using True by (simp add: k_def)
  next
    case False
    with f1 have "f + 1 \<le> 1000" by simp
    with f1 show ?thesis by (simp add: k_def)
  qed
  moreover have "0 \<le> k" using f0 by (simp add: k_def)
  moreover have "py_round1 x = of_int k / 10"
    by (simp add: py_round1_def Let_def y_def[symmetric] f_def[symmetric] k_def)
  ultimately show ?thesis by simp
qed

lemma row_score_bounds:
  assumes "row_score input_norm r = Some (i, sc)"
  shows "0 \<le> sc \<and> sc \<le> 1"
proof -
  let ?a = "card (input_norm \<inter> cr_symptoms r)"
  let ?b = "card (input_norm \<union> cr_symptoms r)"
  from assms have sc: "sc = of_nat ?a / of_nat ?b"
    by (auto simp: row_score_def Let_def split: if_splits)
  have "?a \<le> ?b \<or> ?b = 0"
  proof (cases "finite (input_norm \<union> cr_symptoms r)")
    case True
    then have "?a \<le> ?b" by (intro card_mono) auto
    then show ?thesis ..
  next
    case False
    then show ?thesis by simp
  qed
  then show ?thesis unfolding sc
  proof
    assume "?a \<le> ?b"
    then have "(of_nat ?a :: rat) \<le> of_nat ?b" by simp
    then show "0 \<le> (of_nat ?a :: rat) / of_nat ?b \<and> (of_nat ?a :: rat) / of_nat ?b \<le> 1"
      by (auto simp add: divide_le_eq_1)
  next
    assume "?b = 0"
    then show "0 \<le> (of_nat ?a :: rat) / of_nat ?b \<and> (of_nat ?a :: rat) / of_nat ?b \<le> 1"
      by simp
  qed
qed

lemma score_rows_bounds:
  "0 \<le> bs \<Longrightarrow> bs \<le> 1 \<Longrightarrow>
   0 \<le> snd (score_rows input_norm b bs rs) \<and> snd (score_rows input_norm b bs rs) \<le> 1"
proof (induction rs arbitrary: b bs)
  case Nil
  then show ?case by simp
next
  case (Cons r rs)
  show ?case
  proof (cases "row_score input_norm r")
    case None
    with Cons show ?thesis by simp
  next
    case (Some p)
    obtain i sc where p: "p = (i, sc)" by (cases p)
    from Some p have "0 \<le> sc \<and> sc \<le> 1" using row_score_bounds by simp
    with Cons Some p show ?thesis by (auto split: option.splits)
  qed
qed

lemma ov_best_score_bounds: "0 \<le> ov_best_score e symptoms \<and> ov_best_score e symptoms \<le> 1"
  unfolding ov_best_score_def by (rule score_rows_bounds) simp_all

lemma ov_predict_cases:
  "fst (ov_predict e symptoms) =
     (if symptoms = [] then ov_plain ''Provide at least one symptom'' NoSymptoms
      else if fst (ov_input_norm (ov_normalize_cache e) symptoms) = {}
      then ov_plain ''Symptoms not recognized in dataset'' Unrecognized
      else (case fst (score_rows (fst (ov_input_norm (ov_normalize_cache e) symptoms)) None 0
                        (compiled_rows e)) of
              None \<Rightarrow> ov_low_match (ov_best_score e symptoms) (min_threshold e)
            | Some (r, inter_set, sc) \<Rightarrow>
                if ov_best_score e symptoms < min_threshold e
                then ov_low_match (ov_best_score e symptoms) (min_threshold e)
                else \<lparr>predicted_disease = cr_disease r,
                      confidence = py_round1 (ov_best_score e symptoms * 100),
                      medicine_recommendation =
                        (if cr_medicine r = [] then ''Consult a healthcare provider''
                         else cr_medicine r),
                      diet_recommendation =
                        (if cr_diet r = [] then ''Maintain balanced diet'' else cr_diet r),
                      foods_to_avoid = None, status = Success, candidates = None,
                      debug = Some (SuccessDebug (ov_best_score e symptoms)
                                (sorted_list_of_set inter_set)
                                (sorted_list_of_set
                                   (fst (ov_input_norm (ov_normalize_cache e) symptoms)))
                                (cr_row_index r))\<rparr>))"
  by (simp add: ov_predict_def ov_best_score_def split_beta Let_def split: option.splits prod.splits)


lemma ov_confidence: 
  "0 \<le> confidence (fst (ov_predict e symptoms)) \<and> confidence (fst (ov_predict e symptoms)) \<le> 100"
proof -
  have "0 \<le> ov_best_score e symptoms * 100" "ov_best_score e symptoms * 100 \<le> 100"
    using ov_best_score_bounds[of e symptoms] by simp_all
  then have "0 \<le> py_round1 (ov_best_score e symptoms * 100) \<and>
             py_round1 (ov_best_score e symptoms * 100) \<le> 100"
    by (rule py_round1_bounds)
  then show ?thesis
    by (simp add: ov_predict_cases ov_plain_def ov_low_match_def split: option.splits)
qed

lemma argmax_loop_bound: "best < i \<Longrightarrow> argmax_loop i best v xs < i + length xs"
proof (induction xs arbitrary: i best v)
  case Nil
  then show ?case by simp
next
  case (Cons x xs)
  have 1: "argmax_loop (Suc i) i x xs < Suc i + length xs"
    by (rule Cons.IH) simp
  have 2: "argmax_loop (Suc i) best v xs < Suc i + length xs"
    by (rule Cons.IH) (use Cons.prems in simp)
  from 1 2 show ?case by simp
qed

lemma argmax_lt:
  assumes "argmax xs = Inr k"
  shows "k < length xs"
proof (cases xs)
  case Nil
  with assms show ?thesis by (simp add: argmax_def)
next
  case (Cons x rest)
  with assms have "k = argmax_loop (Suc 0) 0 x rest" by (simp add: argmax_def)
  moreover have "argmax_loop (Suc 0) 0 x rest < Suc 0 + length rest"
    by (rule argmax_loop_bound) simp
  ultimately show ?thesis using Cons by simp
qed

lemma rf_classify_confidence:
  assumes "\<forall>p \<in> set (predict_proba m vec). 0 \<le> p \<and> p \<le> 1"
    and "fst (rf_classify m vec e1 symptoms) = Inr r"
  shows "0 \<le> confidence r \<and> confidence r \<le> 100"
proof -
  let ?proba = "predict_proba m vec"
  from assms(2) obtain k where k: "argmax ?proba = Inr k"
    and r: "confidence r = py_round1 (?proba ! k * 100)"
    by (auto simp: rf_classify_def Let_def split: sum.splits if_splits prod.splits)
  from k have "k < length ?proba" by (rule argmax_lt)
  then have "?proba ! k \<in> set ?proba" by simp
  with assms(1) have "0 \<le> ?proba ! k * 100" "?proba ! k * 100 \<le> 100" by auto
  then show ?thesis unfolding r by (rule py_round1_bounds)
qed

lemma rf_confidence:
  assumes "\<forall>m v p. model e = Some m \<longrightarrow> p \<in> set (predict_proba m v) \<longrightarrow> 0 \<le> p \<and> p \<le> 1"
    and "fst (rf_predict e symptoms) = Inr r"
  shows "0 \<le> confidence r \<and> confidence r \<le> 100"
proof (cases "symptoms = []")
  case True
  with assms(2) show ?thesis by (auto simp: rf_predict_def rf_plain_def)
next
  case ne: False
  show ?thesis
  proof (cases "model e")
    case None
    with ne assms(2) show ?thesis by (auto simp: rf_predict_def rf_plain_def)
  next
    case (Some m)
    obtain res e1 where v: "vectorize e symptoms = (res, e1)" by (cases "vectorize e symptoms")
    show ?thesis
    proof (cases res)
      case (Inl err)
      with ne Some v assms(2) show ?thesis by (simp add: rf_predict_def)
    next
      case (Inr vec)
      show ?thesis
      proof (cases "vec_sum vec = 0")
        case True
        with ne Some v Inr assms(2) show ?thesis by (auto simp: rf_predict_def rf_plain_def)
      next
        case False
        with ne Some v Inr assms(2) have "fst (rf_classify m vec e1 symptoms) = Inr r"
          by (simp add: rf_predict_def)
        moreover from assms(1) Some have "\<forall>p \<in> set (predict_proba m vec). 0 \<le> p \<and> p \<le> 1"
          by blast
        ultimately show ?thesis by (rule rf_classify_confidence[rotated])
      qed
    qed
  qed
qed

lemma ex_clf_proba: "p \<in> set (predict_proba ex_clf v) \<Longrightarrow> 0 \<le> p \<and> p \<le> 1"
  by (auto simp: ex_clf_def split: if_splits)

lemma ex_rf_model: "model ex_rf = Some ex_clf"
  by (simp add: ex_rf_def)

lemma ex_rf_predict:
  "fst (rf_predict ex_rf [''Sneezing'', ''xyz'', ''fever'']) =
     Inr \<lparr>predicted_disease = ''Cold'', confidence = 75,
          medicine_recommendation = ''Consult a healthcare provider'',
          diet_recommendation = ''Maintain a balanced diet'',
          foods_to_avoid = Some ''No specific foods to avoid mentioned'',
          status = Success, candidates = Some [(''Cold'', 75), (''Flu'', 25)],
          debug = None\<rparr>"
  by code_simp

text \<open>
  Claim C10. In every branch of \<open>predict\<close> the confidence of the result lies between 0 and
  100: for the overlap engine in every state and on every input; for the random-forest
  engine for every result it returns, given that the classifier's \<open>predict_proba\<close> yields
  probabilities (numbers between 0 and 1), which is scikit-learn's contract and not code of
  the repository.
\<close>

theorem confidence_in_range:
  "0 \<le> confidence (fst (ov_predict e symptoms)) \<and>
   confidence (fst (ov_predict e symptoms)) \<le> 100 \<and>
   (proba_in_unit e' \<longrightarrow> fst (rf_predict e' symptoms') = Inr r \<longrightarrow>
      0 \<le> confidence r \<and> confidence r \<le> 100)"
  using ov_confidence[of e symptoms] rf_confidence[of e' symptoms' r]
  unfolding proba_in_unit_def by blast

theorem confidence_in_range_witness:
  "proba_in_unit ex_rf \<and>
   fst (rf_predict ex_rf [''Sneezing'', ''xyz'', ''fever'']) =
     Inr \<lparr>predicted_disease = ''Cold'', confidence = 75,
          medicine_recommendation = ''Consult a healthcare provider'',
          diet_recommendation = ''Maintain a balanced diet'',
          foods_to_avoid = Some ''No specific foods to avoid mentioned'',
          status = Success, candidates = Some [(''Cold'', 75), (''Flu'', 25)],
          debug = None\<rparr> \<and>
   (0 :: rat) \<le> 75 \<and> (75 :: rat) \<le> 100 \<and>
   status (fst (ov_predict ex_ov [''cough''])) = Success \<and>
   0 \<le> confidence (fst (ov_predict ex_ov [''cough''])) \<and>
   confidence (fst (ov_predict ex_ov [''cough''])) \<le> 100"
proof -
  have h: "proba_in_unit ex_rf"
    unfolding proba_in_unit_def using ex_clf_proba by (simp add: ex_rf_model)
  have s: "status (fst (ov_predict ex_ov [''cough''])) = Success" by code_simp
  let ?R = "\<lparr>predicted_disease = ''Cold'', confidence = 75,
          medicine_recommendation = ''Consult a healthcare provider'',
          diet_recommendation = ''Maintain a balanced diet'',
          foods_to_avoid = Some ''No specific foods to avoid mentioned'',
          status = Success, candidates = Some [(''Cold'', 75), (''Flu'', 25)],
          debug = None\<rparr>"
  note t = confidence_in_range[of ex_ov "[''cough'']" ex_rf
             "[''Sneezing'', ''xyz'', ''fever'']" ?R]
  from t h ex_rf_predict have rf: "0 \<le> confidence ?R \<and> confidence ?R \<le> 100" by blast
  from t have ov: "0 \<le> confidence (fst (ov_predict ex_ov [''cough''])) \<and>
      confidence (fst (ov_predict ex_ov [''cough''])) \<le> 100" by blast
  from rf have "(0 :: rat) \<le> 75 \<and> (75 :: rat) \<le> 100" by simp
  with h s ov ex_rf_predict show ?thesis by blast
qed

text \<open>
  Claim C6. On the empty symptom list both engines return, without raising, the result
  with status \<open>no_symptoms\<close> and confidence 0, and leave the engine as it is. The result
  is the same for any two engines, whatever their model and rows: neither is consulted.
\<close>

theorem predict_no_symptoms:
  "rf_predict e [] = (Inr (rf_plain ''Provide at least one symptom'' NoSymptoms), e) \<and>
   ov_predict e' [] = (ov_plain ''Provide at least one symptom'' NoSymptoms, e') \<and>
   status (rf_plain ''Provide at least one symptom'' NoSymptoms) = NoSymptoms \<and>
   confidence (rf_plain ''Provide at least one symptom'' NoSymptoms) = 0 \<and>
   status (ov_plain ''Provide at least one symptom'' NoSymptoms) = NoSymptoms \<and>
   confidence (ov_plain ''Provide at least one symptom'' NoSymptoms) = 0 \<and>
   fst (rf_predict e []) = fst (rf_predict e2 []) \<and>
   fst (ov_predict e' []) = fst (ov_predict e2' [])"
  unfolding rf_predict_def ov_predict_def rf_plain_def ov_plain_def by simp

section \<open>The scoring loop of the overlap engine\<close>

lemma ov_input_norm_Nil: "ov_input_norm c [] = ({}, c)"
  by (simp add: ov_input_norm_def)

lemma ov_input_norm_finite: "finite (fst (ov_input_norm c symptoms))"
  by (simp add: ov_input_norm_def split_beta)

lemma row_score_equal:
  assumes "finite (cr_symptoms r)" "cr_symptoms r \<noteq> {}"
  shows "row_score (cr_symptoms r) r = Some (cr_symptoms r, 1)"
proof -
  from assms have "card (cr_symptoms r) \<noteq> 0" by simp
  then show ?thesis by (simp add: row_score_def Let_def assms(2))
qed

lemma score_rows_ge_start: "bs \<le> snd (score_rows input_norm b bs rs)"
proof (induction rs arbitrary: b bs)
  case Nil
  show ?case by simp
next
  case (Cons r rs)
  show ?case
  proof (cases "row_score input_norm r")
    case None
    with Cons show ?thesis by simp
  next
    case (Some p)
    obtain i sc where p: "p = (i, sc)" by (cases p)
    show ?thesis
    proof (cases "bs < sc")
      case True
      have "sc \<le> snd (score_rows input_norm (Some (r, i, sc)) sc rs)" by (rule Cons.IH)
      with True Some p show ?thesis by simp
    next
      case False
      with Some p Cons.IH show ?thesis by (auto split: option.splits)
    qed
  qed
qed

lemma score_rows_ge_row:
  "r \<in> set rs \<Longrightarrow> row_score input_norm r = Some (i, sc) \<Longrightarrow>
   sc \<le> snd (score_rows input_norm b bs rs)"
proof (induction rs arbitrary: b bs)
  case Nil
  then show ?case by simp
next
  case (Cons x rs)
  show ?case
  proof (cases "x = r")
    case True
    show ?thesis
    proof (cases "bs < sc")
      case True
      have "sc \<le> snd (score_rows input_norm (Some (r, i, sc)) sc rs)"
        by (rule score_rows_ge_start)
      with True \<open>x = r\<close> Cons.prems(2) show ?thesis by simp
    next
      case False
      then have "sc \<le> bs" by simp
      also have "bs \<le> snd (score_rows input_norm b' bs rs)" for b'
        by (rule score_rows_ge_start)
      finally have "sc \<le> snd (score_rows input_norm b' bs rs)" for b' .
      with False \<open>x = r\<close> Cons.prems(2) show ?thesis by (auto split: option.splits)
    qed
  next
    case False
    with Cons.prems have "r \<in> set rs" by simp
    then have "sc \<le> snd (score_rows input_norm b' bs' rs)" for b' bs'
      using Cons.prems(2) by (rule Cons.IH)
    then show ?thesis by (auto split: option.splits prod.splits)
  qed
qed

text \<open>
  What the loop does compute. When the normalised set of the input equals the set
  compiled for a row and that set is not empty, the row's score is 1, and 1 is then the
  best score if the row is one of the engine's. Every score of the loop lies between 0
  and 1. The compiled set is the row's symptom set only when no symptom cell of the row
  is missing.
\<close>

lemma row_score_full_match:
  "(fst (ov_input_norm (ov_normalize_cache e) symptoms) = cr_symptoms r \<longrightarrow>
    cr_symptoms r \<noteq> {} \<longrightarrow>
      row_score (fst (ov_input_norm (ov_normalize_cache e) symptoms)) r
        = Some (cr_symptoms r, 1) \<and>
      (r \<in> set (compiled_rows e) \<longrightarrow> ov_best_score e symptoms = 1)) \<and>
   (row_score input_norm r' = Some (i, sc) \<longrightarrow> 0 \<le> sc \<and> sc \<le> 1)"
proof (intro conjI impI)
  assume eq: "fst (ov_input_norm (ov_normalize_cache e) symptoms) = cr_symptoms r"
    and ne: "cr_symptoms r \<noteq> {}"
  have "finite (cr_symptoms r)" using ov_input_norm_finite[of "ov_normalize_cache e" symptoms]
    by (simp add: eq)
  then have sc: "row_score (cr_symptoms r) r = Some (cr_symptoms r, 1)"
    using ne by (rule row_score_equal)
  then show "row_score (fst (ov_input_norm (ov_normalize_cache e) symptoms)) r
      = Some (cr_symptoms r, 1)" by (simp add: eq)
  assume "r \<in> set (compiled_rows e)"
  then have "1 \<le> snd (score_rows (cr_symptoms r) None 0 (compiled_rows e))"
    using sc by (rule score_rows_ge_row)
  then have "1 \<le> ov_best_score e symptoms" by (simp add: ov_best_score_def eq)
  with ov_best_score_bounds[of e symptoms] show "ov_best_score e symptoms = 1" by simp
next
  assume "row_score input_norm r' = Some (i, sc)"
  then have "0 \<le> sc \<and> sc \<le> 1" by (rule row_score_bounds)
  then show "0 \<le> sc" "sc \<le> 1" by simp_all
qed

text \<open>
  Claim C4 at a row with a missing cell. The symptoms of the row \<open>cold3\<close> are cough and
  sneezing; \<open>_prepare\<close> compiles the row to a set that also holds \<open>nan\<close>, the text of its
  missing third cell. The input that names exactly the row's symptoms scores 2/3 against
  it, not 1, and the input \<open>cough\<close> alone is answered with Flu: Cold scores 1/3 like Flu,
  not 1/2.
\<close>

theorem overlap_missing_cell_score:
  "spec_row_tokens cold3 = {''cough'', ''sneezing''} \<and>
   fst (ov_input_norm (ov_normalize_cache ex_ov3) [''sneezing'', ''cough''])
     = spec_row_tokens cold3 \<and>
   cr_symptoms (compiled_rows ex_ov3 ! 1) = {''cough'', ''sneezing'', ''nan''} \<and>
   row_score (spec_row_tokens cold3) (compiled_rows ex_ov3 ! 1)
     = Some ({''cough'', ''sneezing''}, 2 / 3) \<and>
   ov_best_score ex_ov3 [''sneezing'', ''cough''] = 2 / 3 \<and>
   predicted_disease (fst (ov_predict ex_ov3 [''cough''])) = ''Flu''"
  by code_simp

text \<open>
  Claim C5, as the code has it. When the best score of an input is below the threshold,
  \<open>predict\<close> never answers \<open>success\<close>; and when the input shares a symptom with some
  compiled row (a match exists), it answers \<open>low_match\<close> and carries the raw best score,
  with the threshold, in \<open>debug\<close>.
\<close>

theorem low_match_below_threshold:
  "ov_best_score e symptoms < min_threshold e \<longrightarrow>
     status (fst (ov_predict e symptoms)) \<noteq> Success \<and>
     ((\<exists>r \<in> set (compiled_rows e).
         fst (ov_input_norm (ov_normalize_cache e) symptoms) \<inter> cr_symptoms r \<noteq> {}) \<longrightarrow>
        status (fst (ov_predict e symptoms)) = LowMatch \<and>
        debug (fst (ov_predict e symptoms))
          = Some (LowMatchDebug (ov_best_score e symptoms) (min_threshold e)))"
proof (intro impI conjI)
  assume low: "ov_best_score e symptoms < min_threshold e"
  then show "status (fst (ov_predict e symptoms)) \<noteq> Success"
    by (auto simp: ov_predict_cases ov_plain_def ov_low_match_def split: option.splits)
  assume "\<exists>r \<in> set (compiled_rows e).
      fst (ov_input_norm (ov_normalize_cache e) symptoms) \<inter> cr_symptoms r \<noteq> {}"
  then have ne: "fst (ov_input_norm (ov_normalize_cache e) symptoms) \<noteq> {}" by auto
  then have "symptoms \<noteq> []" by (auto simp: ov_input_norm_Nil)
  with low ne show "status (fst (ov_predict e symptoms)) = LowMatch"
    and "debug (fst (ov_predict e symptoms))
          = Some (LowMatchDebug (ov_best_score e symptoms) (min_threshold e))"
    by (auto simp: ov_predict_cases ov_low_match_def split: option.splits)
qed

theorem low_match_below_threshold_witness:
  "ov_best_score ex_ov [''cough'', ''a'', ''b'', ''c'', ''d'', ''e'', ''f'', ''g''] = 1 / 9 \<and>
   min_threshold ex_ov = 12 / 100 \<and>
   fst (ov_input_norm (ov_normalize_cache ex_ov)
          [''cough'', ''a'', ''b'', ''c'', ''d'', ''e'', ''f'', ''g''])
     \<inter> cr_symptoms (hd (compiled_rows ex_ov)) \<noteq> {} \<and>
   hd (compiled_rows ex_ov) \<in> set (compiled_rows ex_ov) \<and>
   status (fst (ov_predict ex_ov [''cough'', ''a'', ''b'', ''c'', ''d'', ''e'', ''f'', ''g'']))
     = LowMatch \<and>
   debug (fst (ov_predict ex_ov [''cough'', ''a'', ''b'', ''c'', ''d'', ''e'', ''f'', ''g'']))
     = Some (LowMatchDebug (1 / 9) (12 / 100))"
proof -
  let ?in = "[''cough'', ''a'', ''b'', ''c'', ''d'', ''e'', ''f'', ''g'']"
  have 1: "ov_best_score ex_ov ?in = 1 / 9" by code_simp
  have 2: "min_threshold ex_ov = 12 / 100" by code_simp
  have 3: "fst (ov_input_norm (ov_normalize_cache ex_ov) ?in)
             \<inter> cr_symptoms (hd (compiled_rows ex_ov)) \<noteq> {}" by code_simp
  have 4: "hd (compiled_rows ex_ov) \<in> set (compiled_rows ex_ov)" by code_simp
  from 3 4 have 5: "\<exists>r \<in> set (compiled_rows ex_ov).
      fst (ov_input_norm (ov_normalize_cache ex_ov) ?in) \<inter> cr_symptoms r \<noteq> {}" by blast
  from low_match_below_threshold[of ex_ov ?in] 1 2 5
  have "status (fst (ov_predict ex_ov ?in)) = LowMatch \<and>
        debug (fst (ov_predict ex_ov ?in)) = Some (LowMatchDebug (1 / 9) (12 / 100))"
    by simp
  with 1 2 3 4 show ?thesis by blast
qed

text \<open>
  Claim C5 as stated fails on the inputs the two guards before the loop answer: the empty
  list and a list of empty strings share nothing with any row (best score 0, below the
  threshold 0.12), and the answers are \<open>no_symptoms\<close> and \<open>unrecognized\<close>, not
  \<open>low_match\<close>.
\<close>

theorem low_match_counterexample:
  "ov_best_score ex_ov [] < min_threshold ex_ov \<and>
   status (fst (ov_predict ex_ov [])) = NoSymptoms \<and>
   ov_best_score ex_ov [''''] < min_threshold ex_ov \<and>
   status (fst (ov_predict ex_ov [''''])) = Unrecognized"
  by code_simp

text \<open>
  Claim C1 at an input of the overlap engine: the symptom \<open>xyz\<close> is not in the vocabulary
  of \<open>ex_ov\<close>, and \<open>predict\<close> answers \<open>low_match\<close>, not \<open>unrecognized\<close>.
\<close>

theorem overlap_out_of_vocabulary:
  "norm_value ''xyz'' \<notin> set (available_symptoms ex_ov) \<and>
   status (fst (ov_predict ex_ov [''xyz''])) = LowMatch"
  by code_simp

section \<open>Preparation of the random-forest engine\<close>

lemma rf_split_cell_fst:
  "cache_ok c \<Longrightarrow> filter (\<lambda>t. t \<noteq> []) (fst (rf_split_cell c x)) = rf_cell_tokens x"
  by (cases x) (simp_all add: norm_list_fst Let_def)

lemma rf_split_cell_ok: "cache_ok c \<Longrightarrow> cache_ok (snd (rf_split_cell c x))"
  by (cases x) (simp_all add: norm_list_ok Let_def)

lemma rf_split_cell_mono: "c \<subseteq>\<^sub>m snd (rf_split_cell c x)"
  by (cases x) (simp_all add: norm_list_mono Let_def)

lemma rf_row_cols_fst:
  "cache_ok c \<Longrightarrow>
   fst (rf_row_cols c sset xs) = sset \<union> (\<Union>x \<in> set xs. set (rf_cell_tokens x))"
proof (induction xs arbitrary: c sset)
  case Nil
  show ?case by simp
next
  case (Cons x xs)
  have ok: "cache_ok (snd (rf_split_cell c x))" using Cons.prems by (rule rf_split_cell_ok)
  have "fst (rf_row_cols c sset (x # xs)) =
        fst (rf_row_cols (snd (rf_split_cell c x)) (sset \<union> set (rf_cell_tokens x)) xs)"
    by (simp add: split_beta rf_split_cell_fst[OF Cons.prems, of x] del: set_filter)
  also have "\<dots> = (sset \<union> set (rf_cell_tokens x)) \<union> (\<Union>x \<in> set xs. set (rf_cell_tokens x))"
    by (rule Cons.IH[OF ok])
  finally show ?case by auto
qed

lemma rf_row_cols_ok: "cache_ok c \<Longrightarrow> cache_ok (snd (rf_row_cols c sset xs))"
  by (induction xs arbitrary: c sset) (simp_all add: split_beta rf_split_cell_ok)

lemma rf_row_cols_mono: "c \<subseteq>\<^sub>m snd (rf_row_cols c sset xs)"
proof (induction xs arbitrary: c sset)
  case Nil
  show ?case by simp
next
  case (Cons x xs)
  have "c \<subseteq>\<^sub>m snd (rf_split_cell c x)" by (rule rf_split_cell_mono)
  also have "\<dots> \<subseteq>\<^sub>m snd (rf_row_cols (snd (rf_split_cell c x))
      (sset \<union> set (filter (\<lambda>t. t \<noteq> []) (fst (rf_split_cell c x)))) xs)"
    by (rule Cons.IH)
  finally show ?case by (simp add: split_beta)
qed

lemma rf_row_cols_tokens: "cache_ok c \<Longrightarrow> fst (rf_row_cols c {} (symptom_cells r)) = rf_row_tokens r"
  by (simp add: rf_row_cols_fst rf_row_tokens_def)

lemma rf_rows_eq:
  "cache_ok c \<Longrightarrow>
   fst (rf_rows c vocab row_sets rs) = vocab \<union> (\<Union>r \<in> set rs. rf_row_tokens r) \<and>
   fst (snd (rf_rows c vocab row_sets rs)) = row_sets @ map rf_row_tokens rs \<and>
   cache_ok (snd (snd (rf_rows c vocab row_sets rs)))"
proof (induction rs arbitrary: c vocab row_sets)
  case Nil
  then show ?case by simp
next
  case (Cons r rs)
  have ok: "cache_ok (snd (rf_row_cols c {} (symptom_cells r)))"
    using Cons.prems by (rule rf_row_cols_ok)
  show ?case
    using Cons.IH[OF ok] rf_row_cols_tokens[OF Cons.prems, of r]
    by (auto simp add: split_beta)
qed

lemma rf_rows_mono: "c \<subseteq>\<^sub>m snd (snd (rf_rows c vocab row_sets rs))"
proof (induction rs arbitrary: c vocab row_sets)
  case Nil
  show ?case by simp
next
  case (Cons r rs)
  have "c \<subseteq>\<^sub>m snd (rf_row_cols c {} (symptom_cells r))" by (rule rf_row_cols_mono)
  also have "\<dots> \<subseteq>\<^sub>m snd (snd (rf_rows (snd (rf_row_cols c {} (symptom_cells r)))
      (vocab \<union> fst (rf_row_cols c {} (symptom_cells r)))
      (row_sets @ [fst (rf_row_cols c {} (symptom_cells r))]) rs))"
    by (rule Cons.IH)
  finally show ?case by (simp add: split_beta)
qed

lemma finite_rf_row_tokens: "finite (rf_row_tokens r)"
  by (simp add: rf_row_tokens_def)

lemma rf_cell_tokens_nonempty: "[] \<notin> set (rf_cell_tokens x)"
  by (cases x) simp_all

lemma rf_row_tokens_nonempty: "[] \<notin> rf_row_tokens r"
  by (simp add: rf_row_tokens_def rf_cell_tokens_nonempty)

lemma fold_index:
  "distinct xs \<Longrightarrow>
   (\<forall>i < length xs. fold (\<lambda>(i, s) m. m(s \<mapsto> i)) (enumerate n xs) m0 (xs ! i) = Some (n + i)) \<and>
   (\<forall>t. t \<notin> set xs \<longrightarrow> fold (\<lambda>(i, s) m. m(s \<mapsto> i)) (enumerate n xs) m0 t = m0 t)"
proof (induction xs arbitrary: n m0)
  case Nil
  show ?case by simp
next
  case (Cons x xs)
  from Cons.prems have d: "distinct xs" and nx: "x \<notin> set xs" by simp_all
  note IH = Cons.IH[OF d, of "Suc n" "m0(x \<mapsto> n)"]
  show ?case
  proof (intro conjI allI impI)
    fix i assume "i < length (x # xs)"
    show "fold (\<lambda>(i, s) m. m(s \<mapsto> i)) (enumerate n (x # xs)) m0 ((x # xs) ! i) = Some (n + i)"
    proof (cases i)
      case 0
      from IH nx
      have "fold (\<lambda>(i, s) m. m(s \<mapsto> i)) (enumerate (Suc n) xs) (m0(x \<mapsto> n)) x
              = (m0(x \<mapsto> n)) x" by blast
      with 0 show ?thesis by simp
    next
      case (Suc k)
      with \<open>i < length (x # xs)\<close> have "k < length xs" by simp
      with IH
      have "fold (\<lambda>(i, s) m. m(s \<mapsto> i)) (enumerate (Suc n) xs) (m0(x \<mapsto> n)) (xs ! k)
              = Some (Suc n + k)" by blast
      with Suc show ?thesis by simp
    qed
  next
    fix t assume t: "t \<notin> set (x # xs)"
    then have "t \<notin> set xs" by simp
    with IH
    have "fold (\<lambda>(i, s) m. m(s \<mapsto> i)) (enumerate (Suc n) xs) (m0(x \<mapsto> n)) t
            = (m0(x \<mapsto> n)) t" by blast
    with t show "fold (\<lambda>(i, s) m. m(s \<mapsto> i)) (enumerate n (x # xs)) m0 t = m0 t" by simp
  qed
qed

lemma index_of_nth: "distinct xs \<Longrightarrow> i < length xs \<Longrightarrow> index_of xs (xs ! i) = Some i"
  using fold_index[of xs 0 Map.empty] by (simp add: index_of_def)

lemma index_of_outside: "distinct xs \<Longrightarrow> t \<notin> set xs \<Longrightarrow> index_of xs t = None"
  using fold_index[of xs 0 Map.empty] by (simp add: index_of_def)

lemma index_of_map: "distinct xs \<Longrightarrow> map (index_of xs) xs = map Some [0..<length xs]"
  by (rule nth_equalityI) (simp_all add: index_of_nth)

lemma index_of_dom: "distinct xs \<Longrightarrow> dom (index_of xs) = set xs"
proof (intro set_eqI iffI)
  fix t assume "distinct xs" "t \<in> dom (index_of xs)"
  then show "t \<in> set xs" by (cases "t \<in> set xs") (auto simp: index_of_outside)
next
  fix t assume d: "distinct xs" and "t \<in> set xs"
  then obtain i where "i < length xs" "xs ! i = t" by (auto simp: in_set_conv_nth)
  with d show "t \<in> dom (index_of xs)" using index_of_nth[of xs i] by auto
qed

lemma index_of_bij:
  assumes "distinct xs"
  shows "bij_betw (\<lambda>s. the (index_of xs s)) (set xs) {0..<length xs}"
proof (rule bij_betw_byWitness[where f' = "\<lambda>i. xs ! i"])
  show "\<forall>s \<in> set xs. xs ! the (index_of xs s) = s"
    using assms by (auto simp: in_set_conv_nth index_of_nth)
  show "\<forall>i \<in> {0..<length xs}. the (index_of xs (xs ! i)) = i"
    using assms by (simp add: index_of_nth)
  show "(\<lambda>s. the (index_of xs s)) ` set xs \<subseteq> {0..<length xs}"
    using assms by (auto simp: in_set_conv_nth index_of_nth)
  show "(\<lambda>i. xs ! i) ` {0..<length xs} \<subseteq> set xs" by auto
qed

lemma index_of_range: "distinct xs \<Longrightarrow> index_of xs t = Some i \<Longrightarrow> i < length xs \<and> xs ! i = t"
proof -
  assume d: "distinct xs" and s: "index_of xs t = Some i"
  then have "t \<in> set xs" by (cases "t \<in> set xs") (auto simp: index_of_outside)
  then obtain k where k: "k < length xs" "xs ! k = t" by (auto simp: in_set_conv_nth)
  with d s have "i = k" using index_of_nth[of xs k] by simp
  with k show ?thesis by simp
qed

lemma rf_prepare_fields:
  assumes "cache_ok (normalize_cache e)"
  shows "symptom_vocab (rf_prepare e) = sorted_list_of_set (\<Union>r \<in> set (df e). rf_row_tokens r)"
    and "symptom_index (rf_prepare e) = index_of (symptom_vocab (rf_prepare e))"
    and "row_symptom_sets (rf_prepare e) = map rf_row_tokens (df e)"
    and "cache_ok (normalize_cache (rf_prepare e))"
    and "df (rf_prepare e) = df e" and "model (rf_prepare e) = model e"
  using rf_rows_eq[OF assms, of "{}" "[]" "df e"]
  by (simp_all add: rf_prepare_def split_beta Let_def)

lemma rf_init_fields:
  shows "symptom_vocab (rf_init d) = sorted_list_of_set (\<Union>r \<in> set d. rf_row_tokens r)"
    and "symptom_index (rf_init d) = index_of (symptom_vocab (rf_init d))"
    and "row_symptom_sets (rf_init d) = map rf_row_tokens d"
    and "cache_ok (normalize_cache (rf_init d))"
    and "df (rf_init d) = d" and "model (rf_init d) = None"
  unfolding rf_init_def
  by (simp_all add: rf_prepare_fields cache_ok_empty)

lemma finite_rf_tokens: "finite (\<Union>r \<in> set d. rf_row_tokens r)"
  by (simp add: finite_rf_row_tokens)

section \<open>Preparation of the overlap engine and the vocabulary\<close>

lemma ov_split_cell_fst: "cache_ok c \<Longrightarrow> fst (ov_split_cell c (str_of x)) = ov_cell_tokens x"
  by (simp add: ov_split_cell_def ov_cell_tokens_def Let_def split_beta norm_list_fst
        del: norm_list.simps)

lemma ov_split_cell_ok: "cache_ok c \<Longrightarrow> cache_ok (snd (ov_split_cell c s))"
  by (simp add: ov_split_cell_def Let_def split_beta norm_list_ok del: norm_list.simps)

lemma ov_split_cell_mono: "c \<subseteq>\<^sub>m snd (ov_split_cell c s)"
  by (simp add: ov_split_cell_def Let_def split_beta norm_list_mono del: norm_list.simps)

lemma ov_row_cols_fst:
  "cache_ok c \<Longrightarrow>
   fst (ov_row_cols c sset xs) = sset \<union> (\<Union>x \<in> set xs. set (ov_cell_tokens x))"
proof (induction xs arbitrary: c sset)
  case Nil
  show ?case by simp
next
  case (Cons x xs)
  have ok: "cache_ok (snd (ov_split_cell c (str_of x)))"
    using Cons.prems by (rule ov_split_cell_ok)
  have "fst (ov_row_cols c sset (x # xs)) =
        fst (ov_row_cols (snd (ov_split_cell c (str_of x))) (sset \<union> set (ov_cell_tokens x)) xs)"
    by (simp add: split_beta ov_split_cell_fst[OF Cons.prems, of x])
  also have "\<dots> = (sset \<union> set (ov_cell_tokens x)) \<union> (\<Union>x \<in> set xs. set (ov_cell_tokens x))"
    by (rule Cons.IH[OF ok])
  finally show ?case by auto
qed

lemma ov_row_cols_ok: "cache_ok c \<Longrightarrow> cache_ok (snd (ov_row_cols c sset xs))"
  by (induction xs arbitrary: c sset) (simp_all add: split_beta ov_split_cell_ok)

lemma ov_row_cols_tokens:
  "cache_ok c \<Longrightarrow> fst (ov_row_cols c {} (symptom_cells r)) = ov_row_tokens r"
  by (simp add: ov_row_cols_fst ov_row_tokens_def)

lemma ov_rows_eq:
  "cache_ok c \<Longrightarrow>
   map cr_symptoms (fst (ov_rows c acc irs)) = map cr_symptoms acc @ map (ov_row_tokens \<circ> snd) irs \<and>
   cache_ok (snd (ov_rows c acc irs))"
proof (induction irs arbitrary: c acc)
  case Nil
  then show ?case by simp
next
  case (Cons ir irs)
  obtain idx r where ir: "ir = (idx, r)" by (cases ir)
  have ok: "cache_ok (snd (ov_row_cols c {} (symptom_cells r)))"
    using Cons.prems by (rule ov_row_cols_ok)
  show ?case
    using Cons.IH[OF ok] ov_row_cols_tokens[OF Cons.prems, of r]
    by (simp add: ir split_beta)
qed

lemma fold_union_symptoms:
  "fold (\<lambda>r acc. acc \<union> cr_symptoms r) rows A = A \<union> (\<Union>S \<in> set (map cr_symptoms rows). S)"
  by (induction rows arbitrary: A) auto

lemma ov_prepare_fields:
  assumes "cache_ok (ov_normalize_cache e)"
  shows "map cr_symptoms (compiled_rows (ov_prepare e)) =
           map cr_symptoms (compiled_rows e) @ map ov_row_tokens (ov_df e)"
    and "available_symptoms (ov_prepare e) =
           sorted_list_of_set (\<Union>S \<in> set (map cr_symptoms (compiled_rows (ov_prepare e))). S)"
    and "cache_ok (ov_normalize_cache (ov_prepare e))"
proof -
  note r = ov_rows_eq[OF assms, of "compiled_rows e" "enumerate 0 (ov_df e)"]
  have m: "map (ov_row_tokens \<circ> snd) (enumerate 0 (ov_df e)) = map ov_row_tokens (ov_df e)"
    by (simp flip: map_map)
  show "map cr_symptoms (compiled_rows (ov_prepare e)) =
           map cr_symptoms (compiled_rows e) @ map ov_row_tokens (ov_df e)"
    using r m by (simp add: ov_prepare_def split_beta Let_def)
  show "available_symptoms (ov_prepare e) =
           sorted_list_of_set (\<Union>S \<in> set (map cr_symptoms (compiled_rows (ov_prepare e))). S)"
    by (simp add: ov_prepare_def split_beta Let_def fold_union_symptoms)
  show "cache_ok (ov_normalize_cache (ov_prepare e))"
    using r by (simp add: ov_prepare_def split_beta Let_def)
qed

lemma ov_init_fields:
  shows "map cr_symptoms (compiled_rows (ov_init d thr)) = map ov_row_tokens d"
    and "available_symptoms (ov_init d thr) = sorted_list_of_set (\<Union>r \<in> set d. ov_row_tokens r)"
    and "cache_ok (ov_normalize_cache (ov_init d thr))"
proof -
  let ?e0 = "\<lparr>ov_df = d, min_threshold = thr, compiled_rows = [],
               ov_normalize_cache = Map.empty, available_symptoms = []\<rparr>"
  have ok: "cache_ok (ov_normalize_cache ?e0)" by (simp add: cache_ok_empty)
  show 1: "map cr_symptoms (compiled_rows (ov_init d thr)) = map ov_row_tokens d"
    using ov_prepare_fields(1)[OF ok] by (simp add: ov_init_def)
  have "available_symptoms (ov_init d thr) =
          sorted_list_of_set (\<Union>S \<in> set (map cr_symptoms (compiled_rows (ov_init d thr))). S)"
    using ov_prepare_fields(2)[OF ok] by (simp only: ov_init_def)
  then show "available_symptoms (ov_init d thr)
      = sorted_list_of_set (\<Union>r \<in> set d. ov_row_tokens r)"
    by (simp only: 1) simp
  show "cache_ok (ov_normalize_cache (ov_init d thr))"
    using ov_prepare_fields(3)[OF ok] by (simp add: ov_init_def)
qed

lemma finite_ov_row_tokens: "finite (ov_row_tokens r)"
  by (simp add: ov_row_tokens_def)

lemma ov_row_tokens_nonempty: "[] \<notin> ov_row_tokens r"
  by (simp add: ov_row_tokens_def ov_cell_tokens_def Let_def)

text \<open>
  The vocabulary of the random-forest engine after initialisation is exactly the set of
  tokens its \<open>_prepare\<close> keeps of the rows' symptom cells, sorted, without duplicates and
  as long as that set is large; the symptom index sends the token at position \<open>i\<close> to
  \<open>i\<close>, is defined on the vocabulary only, and is a bijection from the vocabulary onto
  the numbers below its length.
\<close>

lemma rf_vocabulary_sorted_indexed:
  "set (symptom_vocab (rf_init d)) = (\<Union>r \<in> set d. rf_row_tokens r) \<and>
   [] \<notin> set (symptom_vocab (rf_init d)) \<and>
   sorted (symptom_vocab (rf_init d)) \<and> distinct (symptom_vocab (rf_init d)) \<and>
   length (symptom_vocab (rf_init d)) = card (\<Union>r \<in> set d. rf_row_tokens r) \<and>
   map (symptom_index (rf_init d)) (symptom_vocab (rf_init d))
     = map Some [0..<length (symptom_vocab (rf_init d))] \<and>
   dom (symptom_index (rf_init d)) = set (symptom_vocab (rf_init d)) \<and>
   bij_betw (\<lambda>s. the (symptom_index (rf_init d) s)) (set (symptom_vocab (rf_init d)))
     {0..<length (symptom_vocab (rf_init d))}"
proof -
  let ?T = "\<Union>r \<in> set d. rf_row_tokens r"
  have fT: "finite ?T" by (simp add: finite_rf_row_tokens)
  have v: "symptom_vocab (rf_init d) = sorted_list_of_set ?T" by (rule rf_init_fields)
  have i: "symptom_index (rf_init d) = index_of (sorted_list_of_set ?T)"
    using rf_init_fields(2)[of d] by (simp add: v)
  have d: "distinct (sorted_list_of_set ?T)" by simp
  show ?thesis
    unfolding v i
    using fT index_of_map[OF d] index_of_dom[OF d] index_of_bij[OF d]
    by (simp add: rf_row_tokens_nonempty)
qed

text \<open>
  The symptom list of the overlap engine is the sorted duplicate-free list of what its
  own \<open>_split_cell\<close> returns for \<open>str(cell)\<close>, the token \<open>nan\<close> of a missing cell among it.
\<close>

lemma ov_available_symptoms_sorted:
  "set (available_symptoms (ov_init d thr)) = (\<Union>r \<in> set d. ov_row_tokens r) \<and>
   [] \<notin> set (available_symptoms (ov_init d thr)) \<and>
   sorted (available_symptoms (ov_init d thr)) \<and> distinct (available_symptoms (ov_init d thr))"
proof -
  let ?U = "\<Union>r \<in> set d. ov_row_tokens r"
  have fU: "finite ?U" by (simp add: finite_ov_row_tokens)
  have a: "available_symptoms (ov_init d thr) = sorted_list_of_set ?U" by (rule ov_init_fields)
  show ?thesis unfolding a using fU by (simp add: ov_row_tokens_nonempty)
qed

text \<open>
  Claim C9 at a dataset with a missing cell. The rows \<open>flu3\<close> and \<open>cold3\<close> hold four
  distinct symptom tokens. The random-forest engine's vocabulary is these four; the
  overlap engine's symptom list has a fifth entry, \<open>nan\<close>, the text of the missing cell.
\<close>

theorem overlap_vocabulary_missing_cell:
  "sorted_list_of_set (spec_row_tokens flu3 \<union> spec_row_tokens cold3)
     = [''cough'', ''fatigue'', ''fever'', ''sneezing''] \<and>
   symptom_vocab (rf_init [flu3, cold3]) = [''cough'', ''fatigue'', ''fever'', ''sneezing''] \<and>
   available_symptoms ex_ov3 = [''cough'', ''fatigue'', ''fever'', ''nan'', ''sneezing''] \<and>
   length (available_symptoms ex_ov3) = 5"
  by code_simp

section \<open>The feature vector\<close>

lemma set_item_cases:
  "set_item vec i v = (if i < length vec then Inr (vec[i := v]) else Inl IndexError)"
  by (simp add: set_item_def)

lemma vectorize_loop_fst:
  "cache_ok c \<Longrightarrow>
   fst (vectorize_loop idx c vec ss) =
     (if \<exists>t \<in> norm_value ` set ss. \<exists>i. idx t = Some i \<and> \<not> i < length vec then Inl IndexError
      else Inr (map (\<lambda>j. if \<exists>t \<in> norm_value ` set ss. idx t = Some j then 1 else vec ! j)
                  [0..<length vec]))"
proof (induction ss arbitrary: c vec)
  case Nil
  show ?case by (simp add: map_nth)
next
  case (Cons s ss)
  obtain c1 where ns: "norm_sym c s = (norm_value s, c1)"
    using norm_sym_fst[OF Cons.prems, of s] by (metis prod.collapse)
  have ok: "cache_ok c1" using norm_sym_ok[OF Cons.prems, of s] by (simp add: ns)
  note IH = Cons.IH[OF ok]
  show ?case
  proof (cases "idx (norm_value s)")
    case None
    have "fst (vectorize_loop idx c vec (s # ss)) = fst (vectorize_loop idx c1 vec ss)"
      by (simp add: ns None)
    also note IH[of vec]
    finally show ?thesis using None by auto
  next
    case (Some i)
    show ?thesis
    proof (cases "i < length vec")
      case False
      with Some have "fst (vectorize_loop idx c vec (s # ss)) = Inl IndexError"
        by (simp add: ns set_item_def)
      moreover from False Some
      have "\<exists>t \<in> norm_value ` set (s # ss). \<exists>i. idx t = Some i \<and> \<not> i < length vec" by auto
      ultimately show ?thesis by simp
    next
      case True
      let ?v = "vec[i := 1]"
      have step: "fst (vectorize_loop idx c vec (s # ss)) = fst (vectorize_loop idx c1 ?v ss)"
        using True by (simp add: ns Some set_item_def)
      have E: "(\<exists>t \<in> norm_value ` set (s # ss). \<exists>k. idx t = Some k \<and> \<not> k < length vec) =
               (\<exists>t \<in> norm_value ` set ss. \<exists>k. idx t = Some k \<and> \<not> k < length ?v)"
        using True Some by auto
      have B: "map (\<lambda>j. if \<exists>t \<in> norm_value ` set (s # ss). idx t = Some j then 1 else vec ! j)
                 [0..<length vec] =
               map (\<lambda>j. if \<exists>t \<in> norm_value ` set ss. idx t = Some j then 1 else ?v ! j)
                 [0..<length ?v]"
      proof -
        have "(if \<exists>t \<in> norm_value ` set (s # ss). idx t = Some j then 1 else vec ! j) =
              (if \<exists>t \<in> norm_value ` set ss. idx t = Some j then (1 :: 8 word) else ?v ! j)"
          if "j < length vec" for j
        proof (cases "j = i")
          case True
          with Some \<open>i < length vec\<close> show ?thesis by auto
        next
          case False
          with Some show ?thesis by auto
        qed
        then show ?thesis by simp
      qed
      show ?thesis unfolding step IH[of ?v] E B ..
    qed
  qed
qed

lemma vectorize_fst:
  "fst (vectorize e symptoms) =
     fst (vectorize_loop (symptom_index e) (normalize_cache e)
            (replicate (length (symptom_vocab e)) 0) symptoms)"
  by (simp add: vectorize_def split_beta)


lemma vectorize_set:
  assumes "cache_ok (normalize_cache e)" "cache_ok c'"
    and "norm_value ` set xs = norm_value ` set ys"
  shows "fst (vectorize e xs) = fst (vectorize (e\<lparr>normalize_cache := c'\<rparr>) ys)"
  by (simp add: vectorize_fst vectorize_loop_fst assms)

lemma feature_loop_eq:
  "feature_loop enc vec ss =
     (if \<exists>t \<in> set ss. \<exists>i. enc t = Some i \<and> \<not> i < length vec then Inl IndexError
      else Inr (map (\<lambda>j. if \<exists>t \<in> set ss. enc t = Some j then 1 else vec ! j)
                  [0..<length vec]))"
proof (induction ss arbitrary: vec)
  case Nil
  show ?case by (simp add: map_nth)
next
  case (Cons s ss)
  show ?case
  proof (cases "enc s")
    case None
    have "feature_loop enc vec (s # ss) = feature_loop enc vec ss" by (simp add: None)
    also note Cons.IH[of vec]
    finally show ?thesis using None by auto
  next
    case (Some i)
    show ?thesis
    proof (cases "i < length vec")
      case False
      with Some have "feature_loop enc vec (s # ss) = Inl IndexError"
        by (simp add: set_item_def)
      moreover from False Some
      have "\<exists>t \<in> set (s # ss). \<exists>i. enc t = Some i \<and> \<not> i < length vec" by auto
      ultimately show ?thesis by simp
    next
      case True
      let ?v = "vec[i := 1]"
      have step: "feature_loop enc vec (s # ss) = feature_loop enc ?v ss"
        using True by (simp add: Some set_item_def)
      have E: "(\<exists>t \<in> set (s # ss). \<exists>k. enc t = Some k \<and> \<not> k < length vec) =
               (\<exists>t \<in> set ss. \<exists>k. enc t = Some k \<and> \<not> k < length ?v)"
        using True Some by auto
      have B: "map (\<lambda>j. if \<exists>t \<in> set (s # ss). enc t = Some j then 1 else vec ! j)
                 [0..<length vec] =
               map (\<lambda>j. if \<exists>t \<in> set ss. enc t = Some j then 1 else ?v ! j)
                 [0..<length ?v]"
      proof -
        have "(if \<exists>t \<in> set (s # ss). enc t = Some j then 1 else vec ! j) =
              (if \<exists>t \<in> set ss. enc t = Some j then (1 :: rat) else ?v ! j)"
          if "j < length vec" for j
        proof (cases "j = i")
          case True
          with Some \<open>i < length vec\<close> show ?thesis by auto
        next
          case False
          with Some show ?thesis by auto
        qed
        then show ?thesis by simp
      qed
      show ?thesis unfolding step Cons.IH[of ?v] E B ..
    qed
  qed
qed

lemma create_feature_vector_set:
  assumes "normalize_symptom ` set xs = normalize_symptom ` set ys"
  shows "create_feature_vector ce xs = create_feature_vector ce ys"
  by (simp add: create_feature_vector_def feature_loop_eq assms)

text \<open>
  Claim C8. The feature vector depends only on the set of normalised symptoms: two lists
  that are permutations of each other, or more generally have the same normalised
  symptoms, give the same result (the same vector, or the same index error), whatever the
  cache holds at each call. This holds for \<open>_vectorize\<close> of the random-forest engine and
  for \<open>_create_feature_vector\<close> of the custom engine.
\<close>

theorem vectorize_order_independent:
  "(cache_ok (normalize_cache e) \<longrightarrow> cache_ok c' \<longrightarrow>
      mset xs = mset ys \<or> norm_value ` set xs = norm_value ` set ys \<longrightarrow>
      fst (vectorize e xs) = fst (vectorize (e\<lparr>normalize_cache := c'\<rparr>) ys)) \<and>
   (mset xs = mset ys \<or> normalize_symptom ` set xs = normalize_symptom ` set ys \<longrightarrow>
      create_feature_vector ce xs = create_feature_vector ce ys)"
proof (intro conjI impI)
  assume "cache_ok (normalize_cache e)" "cache_ok c'"
    and "mset xs = mset ys \<or> norm_value ` set xs = norm_value ` set ys"
  moreover from this(3) have "norm_value ` set xs = norm_value ` set ys"
    by (auto dest: mset_eq_setD)
  ultimately show "fst (vectorize e xs) = fst (vectorize (e\<lparr>normalize_cache := c'\<rparr>) ys)"
    by (intro vectorize_set)
next
  assume "mset xs = mset ys \<or> normalize_symptom ` set xs = normalize_symptom ` set ys"
  then have "normalize_symptom ` set xs = normalize_symptom ` set ys"
    by (auto dest: mset_eq_setD)
  then show "create_feature_vector ce xs = create_feature_vector ce ys"
    by (rule create_feature_vector_set)
qed

theorem vectorize_order_independent_witness:
  "cache_ok (normalize_cache ex_rf) \<and> cache_ok Map.empty \<and>
   mset [''Sneezing'', ''xyz'', ''fever''] = mset [''fever'', ''Sneezing'', ''xyz''] \<and>
   fst (vectorize ex_rf [''Sneezing'', ''xyz'', ''fever'']) = Inr [0, 0, 1, 1] \<and>
   fst (vectorize (ex_rf\<lparr>normalize_cache := Map.empty\<rparr>) [''fever'', ''Sneezing'', ''xyz''])
     = Inr [0, 0, 1, 1] \<and>
   normalize_symptom ` set [''Fever'', ''cough'', ''FEVER ''] = normalize_symptom ` set [''cough'', ''fever''] \<and>
   create_feature_vector ex_custom [''Fever'', ''cough'', ''FEVER ''] = Inr [1, 0, 1] \<and>
   create_feature_vector ex_custom [''cough'', ''fever''] = Inr [1, 0, 1]"
proof -
  have 1: "cache_ok (normalize_cache ex_rf)"
    using rf_init_fields(4)[of "[flu_row, cold_row, gap_row]"] by (simp add: ex_rf_def)
  have 2: "cache_ok Map.empty" by (rule cache_ok_empty)
  have 3: "mset [''Sneezing'', ''xyz'', ''fever''] = mset [''fever'', ''Sneezing'', ''xyz'']"
    by simp
  have 4: "fst (vectorize ex_rf [''Sneezing'', ''xyz'', ''fever'']) = Inr [0, 0, 1, 1]"
    by code_simp
  have 5: "normalize_symptom ` set [''Fever'', ''cough'', ''FEVER '']
             = normalize_symptom ` set [''cough'', ''fever'']"
    by code_simp
  have 6: "create_feature_vector ex_custom [''Fever'', ''cough'', ''FEVER ''] = Inr [1, 0, 1]"
    by code_simp
  note t = vectorize_order_independent[of ex_rf Map.empty "[''Sneezing'', ''xyz'', ''fever'']"
             "[''fever'', ''Sneezing'', ''xyz'']"]
  from t[of ex_custom] 1 2 3 4
  have 7: "fst (vectorize (ex_rf\<lparr>normalize_cache := Map.empty\<rparr>) [''fever'', ''Sneezing'', ''xyz''])
     = Inr [0, 0, 1, 1]" by simp
  from vectorize_order_independent[of ex_rf Map.empty "[''Fever'', ''cough'', ''FEVER '']"
         "[''cough'', ''fever'']" ex_custom] 5 6
  have 8: "create_feature_vector ex_custom [''cough'', ''fever''] = Inr [1, 0, 1]" by simp
  from 1 2 3 4 5 6 7 8 show ?thesis by blast
qed

lemma rf_unrecognized:
  assumes "symptoms \<noteq> []" "model e = Some m" "cache_ok (normalize_cache e)"
    and "\<forall>s \<in> set symptoms. symptom_index e (norm_value s) = None"
  shows "fst (rf_predict e symptoms) =
           Inr (rf_plain ''Symptoms not found in dataset vocabulary'' Unrecognized)"
proof -
  let ?n = "length (symptom_vocab e)"
  have "fst (vectorize e symptoms) = Inr (map (\<lambda>j. replicate ?n 0 ! j) [0..<?n])"
    using assms(3,4) by (simp add: vectorize_fst vectorize_loop_fst)
  also have "map (\<lambda>j. replicate ?n (0 :: 8 word) ! j) [0..<?n] = replicate ?n 0"
    by (metis length_replicate map_nth)
  finally have v: "fst (vectorize e symptoms) = Inr (replicate ?n 0)" .
  have z: "vec_sum (replicate ?n 0) = 0" by (simp add: vec_sum_def)
  obtain res e1 where p: "vectorize e symptoms = (res, e1)" by (cases "vectorize e symptoms")
  with v have "res = Inr (replicate ?n 0)" by simp
  with p assms(1,2) z show ?thesis by (simp add: rf_predict_def)
qed


section \<open>The empty token and the missing-value marker\<close>

lemma strip_decomp_space:
  "\<exists>a b. w = a @ strip w @ b \<and> (\<forall>c \<in> set a. isspace c) \<and> (\<forall>c \<in> set b. isspace c)"
proof -
  let ?v = "dropWhile isspace w"
  let ?a = "takeWhile isspace w"
  let ?b = "rev (takeWhile isspace (rev ?v))"
  have 1: "w = ?a @ ?v" by simp
  have "rev ?v = takeWhile isspace (rev ?v) @ dropWhile isspace (rev ?v)" by simp
  then have "?v = rev (dropWhile isspace (rev ?v)) @ ?b"
    by (metis rev_append rev_rev_ident)
  then have 2: "?v = strip w @ ?b" by (simp add: strip_def)
  have a: "\<forall>c \<in> set ?a. isspace c" by (auto dest: set_takeWhileD)
  have b: "\<forall>c \<in> set ?b. isspace c" by (auto dest: set_takeWhileD)
  from 1 2 have "w = ?a @ strip w @ ?b" by simp
  with a b show ?thesis by blast
qed

lemma in_strip: "c \<in> set w \<Longrightarrow> \<not> isspace c \<Longrightarrow> c \<in> set (strip w)"
proof -
  assume c: "c \<in> set w" and n: "\<not> isspace c"
  obtain a b where w: "w = a @ strip w @ b" and a: "\<forall>c \<in> set a. isspace c"
    and b: "\<forall>c \<in> set b. isspace c"
    using strip_decomp_space[of w] by blast
  from c w have "c \<in> set a \<union> set (strip w) \<union> set b" by (metis set_append Un_assoc)
  with a b n show ?thesis by blast
qed

lemma comma_lower_strip:
  assumes "CHR '','' \<in> set s"
  shows "CHR '','' \<in> set (lower (strip s))"
proof -
  have "\<not> isspace CHR '',''" by (simp add: isspace_def)
  with assms have "CHR '','' \<in> set (strip s)" by (rule in_strip)
  then have "lower_char CHR '','' \<in> set (lower (strip s))" by (simp add: lower_def)
  moreover have "lower_char CHR '','' = CHR '',''" by (simp add: lower_char_def)
  ultimately show ?thesis by simp
qed

lemma strip_Nil: "strip [] = []"
  by (simp add: strip_def)

lemma rf_split_cell_nan:
  assumes "lower (strip s) = ''nan''"
  shows "rf_split_cell c (Str s) = ([], c)"
proof -
  have nc: "CHR '','' \<notin> set s"
  proof
    assume "CHR '','' \<in> set s"
    then have "CHR '','' \<in> set (lower (strip s))" by (rule comma_lower_strip)
    with assms show False by simp
  qed
  from assms have "s \<noteq> []" by (auto simp: strip_Nil lower_def)
  with nc assms show ?thesis by simp
qed

lemma sub_space_all_sep:
  assumes "\<forall>c \<in> set u. is_sep c"
  shows "sub_space u = (if u = [] then [] else '' '')"
proof (cases u)
  case Nil
  then show ?thesis by simp
next
  case (Cons c cs)
  with assms have c: "is_sep c" and d: "dropWhile is_sep cs = []" by simp_all
  from c have "sub_space (c # cs) = CHR '' '' # sub_space (dropWhile is_sep cs)" by simp
  also have "\<dots> = '' ''" by (simp only: d sub_space.simps)
  finally show ?thesis by (simp add: Cons)
qed

lemma norm_value_all_sep:
  assumes "\<forall>c \<in> set s. is_sep c"
  shows "norm_value s = []"
proof -
  let ?u = "lower (strip s)"
  have "\<forall>c \<in> set ?u. is_sep c"
    using assms set_strip[of s] by (auto simp: lower_def is_sep_lower_char)
  then have "sub_space ?u = (if ?u = [] then [] else '' '')" by (rule sub_space_all_sep)
  moreover have "strip '' '' = []" by (simp add: strip_def isspace_def)
  ultimately show ?thesis by (simp add: norm_value_def strip_Nil replace_space_def)
qed

lemma vectorize_skip_empty:
  assumes "cache_ok (normalize_cache e)" "symptom_index e [] = None" "norm_value s = []"
  shows "fst (vectorize e (xs @ s # ys)) = fst (vectorize e (xs @ ys))"
proof -
  have T: "norm_value ` set (xs @ s # ys) = insert [] (norm_value ` set (xs @ ys))"
    using assms(3) by auto
  show ?thesis
    unfolding vectorize_fst vectorize_loop_fst[OF assms(1)] T
    by (simp add: assms(2))
qed

lemma rf_init_index_empty: "symptom_index (rf_init d) [] = None"
proof -
  have "[] \<notin> set (symptom_vocab (rf_init d))"
    by (simp add: rf_init_fields(1) finite_rf_row_tokens rf_row_tokens_nonempty)
  moreover have "distinct (symptom_vocab (rf_init d))" by (simp add: rf_init_fields(1))
  ultimately show ?thesis by (simp add: rf_init_fields(2) index_of_outside)
qed

text \<open>
  The empty token. The empty string normalises to the empty string under any cache, and
  so does every string of whitespace and underscores only. In the random-forest engine
  \<open>_split_cell\<close> returns nothing for a missing cell and for a cell that is the text \<open>nan\<close>
  in any letter case once stripped. The empty token is in neither engine's vocabulary,
  the symptom index has no entry for it, and a symptom that normalises to it leaves the
  feature vector as it is without it.
\<close>

lemma empty_token_excluded:
  "fst (norm_sym c []) = [] \<and>
   (cache_ok c \<longrightarrow> (\<forall>ch \<in> set s. is_sep ch) \<longrightarrow> fst (norm_sym c s) = []) \<and>
   rf_split_cell c NaN = ([], c) \<and>
   (lower (strip p) = ''nan'' \<longrightarrow> rf_split_cell c (Str p) = ([], c)) \<and>
   [] \<notin> set (symptom_vocab (rf_init d)) \<and>
   symptom_index (rf_init d) [] = None \<and>
   [] \<notin> set (available_symptoms (ov_init d thr)) \<and>
   (cache_ok (normalize_cache e) \<longrightarrow> symptom_index e [] = None \<longrightarrow> norm_value s' = [] \<longrightarrow>
      fst (vectorize e (xs @ s' # ys)) = fst (vectorize e (xs @ ys)))"
proof -
  have 1: "fst (norm_sym c []) = []" by (simp add: norm_sym_def)
  have 2: "cache_ok c \<longrightarrow> (\<forall>ch \<in> set s. is_sep ch) \<longrightarrow> fst (norm_sym c s) = []"
    by (simp add: norm_sym_fst norm_value_all_sep)
  have 3: "rf_split_cell c NaN = ([], c)" by simp
  have 4: "lower (strip p) = ''nan'' \<longrightarrow> rf_split_cell c (Str p) = ([], c)"
    using rf_split_cell_nan by blast
  have 5: "[] \<notin> set (symptom_vocab (rf_init d))"
    by (simp add: rf_init_fields(1) finite_rf_row_tokens rf_row_tokens_nonempty)
  have 6: "[] \<notin> set (available_symptoms (ov_init d thr))"
    by (simp add: ov_init_fields(2) finite_ov_row_tokens ov_row_tokens_nonempty)
  have 7: "cache_ok (normalize_cache e) \<longrightarrow> symptom_index e [] = None \<longrightarrow> norm_value s' = [] \<longrightarrow>
      fst (vectorize e (xs @ s' # ys)) = fst (vectorize e (xs @ ys))"
    using vectorize_skip_empty by blast
  from 1 2 3 4 5 6 7 rf_init_index_empty[of d] show ?thesis by blast
qed

text \<open>
  Claim C3 at a missing cell of the overlap engine. \<open>_prepare\<close> hands \<open>str(cell)\<close> to
  \<open>_split_cell\<close>, which returns the token \<open>nan\<close> for a missing cell where the
  random-forest engine's \<open>_split_cell\<close> returns nothing. The token is in the row's
  compiled set and in the symptom list, and \<open>predict\<close> answers the symptom \<open>nan\<close> with
  Cold.
\<close>

theorem overlap_missing_cell_token:
  "fst (ov_split_cell Map.empty (str_of NaN)) = [''nan''] \<and>
   fst (rf_split_cell Map.empty NaN) = [] \<and>
   ''nan'' \<in> cr_symptoms (compiled_rows ex_ov3 ! 1) \<and>
   ''nan'' \<in> set (available_symptoms ex_ov3) \<and>
   ''nan'' \<notin> set (symptom_vocab (rf_init [flu3, cold3])) \<and>
   status (fst (ov_predict ex_ov3 [''nan''])) = Success \<and>
   predicted_disease (fst (ov_predict ex_ov3 [''nan''])) = ''Cold''"
  by code_simp

section \<open>What the calls change\<close>


































end
